theory Spec2Isabelle
  imports
    Complex_Main
    "HOL-Library.Word"
    "HOL-Library.Char_ord"
    "HOL-Library.List_Lexorder"
    "HOL-Library.Option_ord"
    "HOL-Library.Product_Lexorder"
    "HOL-Library.Log_Nat"
begin

section \<open>Data model of \<open>generate_content.py\<close>\<close>

text \<open>
  The exceptions the module can end with. \<open>ClickException\<close> is the only one the source
  raises itself (\<open>__load_traits\<close>, \<open>_load_trait_image\<close>); the others are raised by
  Python and numpy under the source's own expressions and are never caught.
\<close>

datatype error = ClickException | IndexError | TypeError | ValueError | AttributeError | OverflowError

text \<open>
  One row of the \<open>traits\<close> array built by \<open>__load_traits\<close>: the tuple
  \<open>(type or None, name or None, int(rarity_weight) or 0, image_path or None)\<close>, the image
  path later replaced by the loaded image. None is \<open>None\<close>; Python strings are modelled
  as \<open>string\<close>, compared character by character as Python does.
\<close>

record 'img trait =
  trait_type :: "string option"
  trait_name :: "string option"
  rarity_weight :: int
  trait_image :: "'img option"

section \<open>\<open>float64\<close> arithmetic\<close>

text \<open>
  A numpy \<open>float64\<close> value: a finite value, held as the rational it denotes, or one of
  the three special values. The sign of zero is not kept: the zeros that occur here are
  the converted integer 0 and sums, which are \<open>+0.0\<close>.
\<close>

datatype float64 = Finite rat | PosInf | NegInf | NaN

text \<open>\<open>2 ^ n\<close> as a rational, under a name of its own.\<close>

definition two_p :: "nat \<Rightarrow> rat" where
  "two_p n = 2 ^ n"

text \<open>The nearest integer, a tie going to the even one.\<close>

definition round_half_even :: "rat \<Rightarrow> int" where
  "round_half_even y =
     (let f = \<lfloor>y\<rfloor>; d = y - of_int f
      in if d < 1 / 2 then f else if 1 / 2 < d then f + 1 else if even f then f else f + 1)"

text \<open>
  Rounding a real result to \<open>float64\<close> (IEEE 754 binary64, round to nearest, ties to
  even). In units of \<open>2 ^ -1074\<close>, the smallest subnormal, the magnitude is \<open>t\<close>; the
  spacing of the representable values around it is \<open>2 ^ k\<close> units, where \<open>k\<close> leaves
  53 significant bits (and is 0 for the subnormals and the first normal binade). A
  rounded magnitude of \<open>2 ^ 1024\<close> or more overflows to an infinity.
\<close>

definition round64 :: "rat \<Rightarrow> float64" where
  "round64 x =
     (let t = \<bar>x\<bar> * two_p 1074;
          k = floorlog 2 (nat \<lfloor>t\<rfloor>) - 53;
          y = of_int (round_half_even (t / two_p k)) * two_p k / two_p 1074
      in if two_p 1024 \<le> y then (if 0 < x then PosInf else NegInf)
         else Finite (if x < 0 then - y else y))"

text \<open>\<open>x + y\<close> on \<open>float64\<close>: the rounded sum; opposite infinities give NaN.\<close>

fun fadd :: "float64 \<Rightarrow> float64 \<Rightarrow> float64" where
  "fadd (Finite x) (Finite y) = round64 (x + y)"
| "fadd NaN v = NaN"
| "fadd v NaN = NaN"
| "fadd PosInf NegInf = NaN"
| "fadd NegInf PosInf = NaN"
| "fadd PosInf v = PosInf"
| "fadd v PosInf = PosInf"
| "fadd NegInf v = NegInf"
| "fadd v NegInf = NegInf"

text \<open>
  \<open>x / y\<close> on \<open>float64\<close> as numpy divides (a warning, no exception): the rounded
  quotient; a zero divisor gives NaN for \<open>0 / 0\<close> and an infinity otherwise; a finite
  value divided by an infinity is 0.
\<close>

fun fdiv :: "float64 \<Rightarrow> float64 \<Rightarrow> float64" where
  "fdiv (Finite x) (Finite y) =
     (if y = 0 then (if x = 0 then NaN else if 0 < x then PosInf else NegInf)
      else round64 (x / y))"
| "fdiv NaN v = NaN"
| "fdiv v NaN = NaN"
| "fdiv (Finite x) v = Finite 0"
| "fdiv PosInf (Finite y) = (if y < 0 then NegInf else PosInf)"
| "fdiv NegInf (Finite y) = (if y < 0 then PosInf else NegInf)"
| "fdiv v w = NaN"

text \<open>
  \<open>ndarray.sum()\<close> of a one-dimensional \<open>float64\<close> array: numpy adds the pairwise
  sum of the elements to the initial value \<open>0.0\<close>. The pairwise sum of fewer than 8
  elements is a plain loop from \<open>0.0\<close>; up to 128 elements, eight accumulators
  \<open>r[0..7]\<close> take the elements in blocks of 8, are added as a tree, and the elements
  left over are added one by one; a longer array is cut at half its length, rounded
  down to a multiple of 8, and the sums of the two parts are added.
\<close>

definition pairwise_tree :: "float64 list \<Rightarrow> float64" where
  "pairwise_tree r =
     fadd (fadd (fadd (r ! 0) (r ! 1)) (fadd (r ! 2) (r ! 3)))
          (fadd (fadd (r ! 4) (r ! 5)) (fadd (r ! 6) (r ! 7)))"

function unrolled_sum :: "float64 list \<Rightarrow> float64 list \<Rightarrow> float64" where
  "unrolled_sum r a =
     (if 8 \<le> length a then unrolled_sum (map2 fadd r (take 8 a)) (drop 8 a)
      else foldl fadd (pairwise_tree r) a)"
  by pat_completeness auto
termination
  by (relation "measure (\<lambda>(r, a). length a)") auto

definition pairwise_half :: "nat \<Rightarrow> nat" where
  "pairwise_half n = n div 2 - (n div 2) mod 8"

function pairwise_sum :: "float64 list \<Rightarrow> float64" where
  "pairwise_sum a =
     (if length a < 8 then foldl fadd (Finite 0) a
      else if length a \<le> 128 then unrolled_sum (take 8 a) (drop 8 a)
      else fadd (pairwise_sum (take (pairwise_half (length a)) a))
                (pairwise_sum (drop (pairwise_half (length a)) a)))"
  by pat_completeness auto
termination
  by (relation "measure length") (auto simp: pairwise_half_def)

definition np_sum :: "float64 list \<Rightarrow> float64" where
  "np_sum a = fadd (Finite 0) (pairwise_sum a)"

text \<open>
  \<open>astype(dtype=np.float64)\<close> on a column of Python integers: each is converted as
  \<open>float()\<close> converts it, rounded to the nearest \<open>float64\<close>, and an integer that
  rounds beyond the largest one raises \<open>OverflowError\<close>.
\<close>

definition is_finite :: "float64 \<Rightarrow> bool" where
  "is_finite v = (case v of Finite y \<Rightarrow> True | _ \<Rightarrow> False)"

definition astype_float64 :: "int list \<Rightarrow> error + float64 list" where
  "astype_float64 column =
     (if list_all (\<lambda>z. is_finite (round64 (of_int z))) column
      then Inr (map (\<lambda>z. round64 (of_int z)) column)
      else Inl OverflowError)"

section \<open>Loading the trait table\<close>

text \<open>Python's \<open>x or None\<close> on a CSV cell: the empty string is falsy.\<close>

definition or_None :: "string \<Rightarrow> string option" where
  "or_None s = (if s = [] then None else Some s)"

text \<open>
  One CSV row of \<open>__load_traits\<close>. \<open>py_int\<close> stands for Python's \<open>int()\<close> on a cell
  (\<open>None\<close> where it raises \<open>ValueError\<close>); a row that does not unpack into four cells
  raises \<open>ValueError\<close> too, and both become a \<open>ClickException\<close>. \<open>int(w) or 0\<close> is
  \<open>int(w)\<close>. The image column still holds the path.
\<close>

fun load_row :: "(string \<Rightarrow> int option) \<Rightarrow> string list \<Rightarrow> error + string trait" where
  "load_row py_int [ty, nm, rw, ip] =
     (case py_int rw of
        None \<Rightarrow> Inl ClickException
      | Some w \<Rightarrow> Inr \<lparr>trait_type = or_None ty, trait_name = or_None nm,
                       rarity_weight = (if w = 0 then 0 else w), trait_image = or_None ip\<rparr>)"
| "load_row py_int cells = Inl ClickException"

fun load_rows :: "(string \<Rightarrow> int option) \<Rightarrow> string list list \<Rightarrow> error + string trait list" where
  "load_rows py_int [] = Inr []"
| "load_rows py_int (r # rs) =
     (case load_row py_int r of
        Inl e \<Rightarrow> Inl e
      | Inr t \<Rightarrow> (case load_rows py_int rs of Inl e \<Rightarrow> Inl e | Inr ts \<Rightarrow> Inr (t # ts)))"

text \<open>
  Replacing the image paths by images, in row order. \<open>load_trait_image\<close> stands for
  \<open>_load_trait_image\<close> on the resolved path: the decoded image, or the
  \<open>ClickException\<close> it raises for a missing or invalid file.
\<close>

fun load_images :: "(string \<Rightarrow> error + 'img) \<Rightarrow> string trait list \<Rightarrow> error + 'img trait list" where
  "load_images load_trait_image [] = Inr []"
| "load_images load_trait_image (t # ts) =
     (case (case trait_image t of
              None \<Rightarrow> Inr None
            | Some p \<Rightarrow> (case load_trait_image p of Inl e \<Rightarrow> Inl e | Inr im \<Rightarrow> Inr (Some im))) of
        Inl e \<Rightarrow> Inl e
      | Inr im \<Rightarrow>
          (case load_images load_trait_image ts of
             Inl e \<Rightarrow> Inl e
           | Inr ts' \<Rightarrow> Inr (\<lparr>trait_type = trait_type t, trait_name = trait_name t,
                               rarity_weight = rarity_weight t, trait_image = im\<rparr> # ts')))"

text \<open>
  \<open>__load_traits\<close> on the rows after the header. With no row the array is
  one-dimensional and \<open>traits[:, 3]\<close> raises \<open>IndexError\<close>.
\<close>

definition load_traits ::
  "(string \<Rightarrow> int option) \<Rightarrow> (string \<Rightarrow> error + 'img) \<Rightarrow> string list list \<Rightarrow> error + 'img trait list" where
  "load_traits py_int load_trait_image rows =
     (case load_rows py_int rows of
        Inl e \<Rightarrow> Inl e
      | Inr traits \<Rightarrow> if traits = [] then Inl IndexError else load_images load_trait_image traits)"

section \<open>Weight normalisation\<close>

text \<open>
  \<open>np.unique(ar, return_index=True)[1]\<close>: for each distinct value of \<open>ar\<close>, in sorted
  order, the position of its first occurrence.
\<close>

definition first_index :: "'a list \<Rightarrow> 'a \<Rightarrow> nat" where
  "first_index ar v = length (takeWhile (\<lambda>x. x \<noteq> v) ar)"

definition unique_index :: "'a::linorder list \<Rightarrow> nat list" where
  "unique_index ar = map (first_index ar) (sort (remdups ar))"

text \<open>\<open>np.split(ary, indices)\<close>: the slices \<open>ary[:i1], ary[i1:i2], ..., ary[ik:]\<close>.\<close>

fun np_split_from :: "nat \<Rightarrow> 'a list \<Rightarrow> nat list \<Rightarrow> 'a list list" where
  "np_split_from start ary [] = [drop start ary]"
| "np_split_from start ary (i # idxs) = take (i - start) (drop start ary) # np_split_from i ary idxs"

definition np_split :: "'a list \<Rightarrow> nat list \<Rightarrow> 'a list list" where
  "np_split ary idxs = np_split_from 0 ary idxs"

text \<open>
  What \<open>argsort\<close> may return for a column: a permutation of the positions that puts
  the column in ascending order.
\<close>

definition argsort_result :: "'a::linorder list \<Rightarrow> nat list \<Rightarrow> bool" where
  "argsort_result column idxs =
     (distinct idxs \<and> set idxs = {0..<length column} \<and> sorted (map ((!) column) idxs))"

text \<open>
  \<open>traits[:, 0].argsort()\<close>. numpy's default sort of an object array is an insertion
  sort up to 16 elements, which keeps equal elements in their order; on a longer array it
  is an introsort, which need not. Which of the sorting permutations it returns then is
  left to the parameter \<open>argsort\<close>; an answer that is not a sorting permutation is not
  taken.
\<close>

definition sorted_indexes :: "(string option list \<Rightarrow> nat list) \<Rightarrow> 'img trait list \<Rightarrow> nat list" where
  "sorted_indexes argsort traits =
     (let types = map trait_type traits;
          insertion_sorted = sort_key (\<lambda>i. trait_type (traits ! i)) [0..<length traits]
      in if length traits \<le> 16 then insertion_sorted
         else if argsort_result types (argsort types) then argsort types
         else insertion_sorted)"

text \<open>
  The first half of \<open>__get_normalized_rarity_weight_groups\<close>: the rows' indexes sorted by
  trait type, each paired with its weight converted to \<open>float64\<close>, and split where the
  sorted type column changes.
\<close>

definition indexed_rarity_weight_groups ::
  "(string option list \<Rightarrow> nat list) \<Rightarrow> 'img trait list \<Rightarrow> error + (nat \<times> float64) list list" where
  "indexed_rarity_weight_groups argsort traits =
     (let sorted_types = map (\<lambda>i. trait_type (traits ! i)) (sorted_indexes argsort traits);
          split_indexes = tl (unique_index sorted_types)
      in case astype_float64 (map (\<lambda>i. rarity_weight (traits ! i)) (sorted_indexes argsort traits)) of
           Inl e \<Rightarrow> Inl e
         | Inr rarity_weights \<Rightarrow>
             Inr (np_split (zip (sorted_indexes argsort traits) rarity_weights) split_indexes))"

text \<open>\<open>_normalize_indexed_rarity_weights\<close>: column 1 divided by its sum.\<close>

definition normalize_indexed_rarity_weights :: "(nat \<times> float64) list \<Rightarrow> (nat \<times> float64) list" where
  "normalize_indexed_rarity_weights weight_matrix =
     (let weights = map snd weight_matrix
      in map (\<lambda>(i, w). (i, fdiv w (np_sum weights))) weight_matrix)"

text \<open>
  \<open>__get_normalized_rarity_weight_groups\<close>. An empty array has no column 0
  (\<open>IndexError\<close>). Sorting an object array compares its elements with \<open><\<close>, which
  Python refuses for \<open>None\<close> (\<open>TypeError\<close>): with two rows or more, every row is
  compared at least once, so any row without a type raises.
\<close>

definition get_normalized_rarity_weight_groups ::
  "(string option list \<Rightarrow> nat list) \<Rightarrow> 'img trait list \<Rightarrow> error + (nat \<times> float64) list list" where
  "get_normalized_rarity_weight_groups argsort traits =
     (if traits = [] then Inl IndexError
      else if 2 \<le> length traits \<and> list_ex (\<lambda>t. trait_type t = None) traits then Inl TypeError
      else case indexed_rarity_weight_groups argsort traits of
             Inl e \<Rightarrow> Inl e
           | Inr groups \<Rightarrow> Inr (map normalize_indexed_rarity_weights groups))"

section \<open>Combination sampling\<close>

text \<open>
  The random generator is numpy's; its bit generator is a parameter here:
  \<open>next_uint64\<close> maps a generator state to the next 64-bit output and the next state.
  \<open>rng.random()\<close> turns one output into a double in \<open>[0, 1)\<close>: the top 53 bits,
  scaled by \<open>2 ^ -53\<close>.
\<close>

definition next_double :: "('g \<Rightarrow> 64 word \<times> 'g) \<Rightarrow> 'g \<Rightarrow> rat \<times> 'g" where
  "next_double next_uint64 g =
     (case next_uint64 g of (w, g') \<Rightarrow> (of_nat (unat (drop_bit 11 w)) / 2 ^ 53, g'))"

fun finite_values :: "float64 list \<Rightarrow> rat list option" where
  "finite_values [] = Some []"
| "finite_values (Finite x # ps) = map_option ((#) x) (finite_values ps)"
| "finite_values (p # ps) = None"

fun cumsum_from :: "rat \<Rightarrow> rat list \<Rightarrow> rat list" where
  "cumsum_from acc [] = []"
| "cumsum_from acc (x # xs) = (acc + x) # cumsum_from (acc + x) xs"

definition cumsum :: "rat list \<Rightarrow> rat list" where
  "cumsum xs = cumsum_from 0 xs"

text \<open>
  \<open>cdf.searchsorted(u, side='right')\<close> on a sorted \<open>cdf\<close>: the number of leading
  entries that are at most \<open>u\<close>.
\<close>

definition searchsorted_right :: "rat list \<Rightarrow> rat \<Rightarrow> nat" where
  "searchsorted_right cdf u = length (takeWhile (\<lambda>c. c \<le> u) cdf)"

text \<open>The tolerance of numpy's check that \<open>p\<close> sums to 1: the square root of the \<open>float64\<close> epsilon.\<close>

definition atol :: rat where
  "atol = 1 / 2 ^ 26"

text \<open>
  \<open>rng.choice(a=a, p=p)\<close> for one sample: numpy rejects an empty \<open>a\<close>, a \<open>p\<close> whose
  sum is NaN, that has a negative entry or that does not sum to 1 (each a
  \<open>ValueError\<close>; an infinite entry fails one of the three), then draws one double and
  looks it up in the normalised cumulative sums of \<open>p\<close>.
\<close>

definition choice ::
  "('g \<Rightarrow> 64 word \<times> 'g) \<Rightarrow> nat list \<Rightarrow> float64 list \<Rightarrow> 'g \<Rightarrow> error + (nat \<times> 'g)" where
  "choice next_uint64 a p g =
     (if a = [] then Inl ValueError
      else case finite_values p of
        None \<Rightarrow> Inl ValueError
      | Some ps \<Rightarrow>
          if length ps \<noteq> length a then Inl ValueError
          else if list_ex (\<lambda>x. x < 0) ps then Inl ValueError
          else if atol < \<bar>sum_list ps - 1\<bar> then Inl ValueError
          else (let cdf = map (\<lambda>c. c / last (cumsum ps)) (cumsum ps);
                    (u, g') = next_double next_uint64 g;
                    idx = searchsorted_right cdf u
                in if idx < length a then Inr (a ! idx, g') else Inl IndexError))"

text \<open>The list comprehension of \<open>__get_random_traits\<close>: one draw per group, in group order.\<close>

fun choices ::
  "('g \<Rightarrow> 64 word \<times> 'g) \<Rightarrow> (nat \<times> float64) list list \<Rightarrow> 'g \<Rightarrow> error + (nat list \<times> 'g)" where
  "choices next_uint64 [] g = Inr ([], g)"
| "choices next_uint64 (rarity_weight_group # groups) g =
     (case choice next_uint64 (map fst rarity_weight_group) (map snd rarity_weight_group) g of
        Inl e \<Rightarrow> Inl e
      | Inr (i, g') \<Rightarrow>
          (case choices next_uint64 groups g' of
             Inl e \<Rightarrow> Inl e
           | Inr (idxs, g'') \<Rightarrow> Inr (i # idxs, g'')))"

text \<open>
  \<open>__get_random_traits\<close>: the drawn row indexes are sorted (\<open>np.sort\<close>) and the rows
  are read from the table in that order.
\<close>

definition get_random_traits ::
  "('g \<Rightarrow> 64 word \<times> 'g) \<Rightarrow> 'img trait list \<Rightarrow> (nat \<times> float64) list list \<Rightarrow> 'g \<Rightarrow>
     error + ('img trait list \<times> 'g)" where
  "get_random_traits next_uint64 traits rarity_weight_groups g =
     (case choices next_uint64 rarity_weight_groups g of
        Inl e \<Rightarrow> Inl e
      | Inr (idxs, g') \<Rightarrow>
          (let random_trait_indexes = sort idxs
           in if list_all (\<lambda>i. i < length traits) random_trait_indexes
              then Inr (map (\<lambda>i. traits ! i) random_trait_indexes, g')
              else Inl IndexError))"

text \<open>
  The \<open>while bar.pos < amount\<close> loop of \<open>__generate_token_data\<close>. The rows
  \<open>token_data[0 .. bar.pos - 1]\<close> filled so far are the list \<open>token_data\<close> and
  \<open>bar.pos\<close> is its length: an accepted item is stored at \<open>bar.pos\<close> and the bar
  advances by one. The loop has no bound; a run that never leaves it is \<open>None\<close>.
\<close>

partial_function (option) generate_loop ::
  "('g \<Rightarrow> 64 word \<times> 'g) \<Rightarrow> 'img trait list \<Rightarrow> (nat \<times> float64) list list \<Rightarrow> nat \<Rightarrow>
     string option list set \<Rightarrow> 'img trait list list \<Rightarrow> 'g \<Rightarrow>
     (error + ('img trait list list \<times> 'g)) option" where
  "generate_loop next_uint64 traits rarity_weight_groups amount generated_traits token_data g =
     (if length token_data < amount then
        (case get_random_traits next_uint64 traits rarity_weight_groups g of
           Inl e \<Rightarrow> Some (Inl e)
         | Inr (random_traits, g') \<Rightarrow>
             if map trait_name random_traits \<notin> generated_traits
             then generate_loop next_uint64 traits rarity_weight_groups amount
                    (insert (map trait_name random_traits) generated_traits)
                    (token_data @ [random_traits]) g'
             else generate_loop next_uint64 traits rarity_weight_groups amount
                    generated_traits token_data g')
      else Some (Inr (token_data, g)))"

text \<open>
  One slot of a generated item after \<open>np.delete(arr=token_data, obj=2, axis=2)\<close>:
  type, name and image; the rarity weight is gone.
\<close>

type_synonym 'img slot = "string option \<times> string option \<times> 'img option"

definition delete_rarity_weight :: "'img trait \<Rightarrow> 'img slot" where
  "delete_rarity_weight t = (trait_type t, trait_name t, trait_image t)"

text \<open>\<open>__generate_token_data\<close>: the loop from the empty set, then the weight column removed.\<close>

definition generate_token_data ::
  "('g \<Rightarrow> 64 word \<times> 'g) \<Rightarrow> 'img trait list \<Rightarrow> (nat \<times> float64) list list \<Rightarrow> nat \<Rightarrow> 'g \<Rightarrow>
     (error + 'img slot list list) option" where
  "generate_token_data next_uint64 traits rarity_weight_groups amount g =
     (case generate_loop next_uint64 traits rarity_weight_groups amount {} [] g of
        None \<Rightarrow> None
      | Some (Inl e) \<Rightarrow> Some (Inl e)
      | Some (Inr (token_data, g')) \<Rightarrow> Some (Inr (map (map delete_rarity_weight) token_data)))"

section \<open>Metadata\<close>

text \<open>Python's \<open>str\<close> of a natural number, for the \<open>#{i+1}\<close> of the token names.\<close>

fun str_nat :: "nat \<Rightarrow> string" where
  "str_nat n =
     (if n < 10 then [''0123456789'' ! n]
      else str_nat (n div 10) @ [''0123456789'' ! (n mod 10)])"

definition token_label :: "string \<Rightarrow> nat \<Rightarrow> string" where
  "token_label token_name i = token_name @ '' #'' @ str_nat (i + 1)"

text \<open>
  A Python \<open>dict\<close> as the list of its items in insertion order; storing under a key that
  is present keeps the key's position.
\<close>

fun dict_set :: "('k \<times> 'v) list \<Rightarrow> 'k \<Rightarrow> 'v \<Rightarrow> ('k \<times> 'v) list" where
  "dict_set [] k v = [(k, v)]"
| "dict_set ((k', v') # d) k v = (if k' = k then (k, v) # d else (k', v') # dict_set d k v)"

definition dict_update :: "('k \<times> 'v) list \<Rightarrow> ('k \<times> 'v) list \<Rightarrow> ('k \<times> 'v) list" where
  "dict_update d items = foldl (\<lambda>d' (k, v). dict_set d' k v) d items"

text \<open>
  One dictionary of \<open>__generate_metadata\<close>:
  \<open>{'Name': f'{token_name} #{i+1}', **dict(pairs)}\<close> for the item's (type, name) pairs.
\<close>

definition metadata_dict ::
  "string \<Rightarrow> nat \<Rightarrow> 'img slot list \<Rightarrow> (string option \<times> string option) list" where
  "metadata_dict token_name i item =
     dict_update [(Some ''Name'', Some (token_label token_name i))]
       (dict_update [] (map (\<lambda>(ty, nm, im). (ty, nm)) item))"

text \<open>
  \<open>csv.DictWriter.writerow\<close>: a key outside \<open>fieldnames\<close> is a \<open>ValueError\<close>; a
  missing key gives the empty cell, which is also how \<open>None\<close> is written.
\<close>

definition dict_to_row ::
  "string option list \<Rightarrow> (string option \<times> string option) list \<Rightarrow> error + string option list" where
  "dict_to_row fieldnames rowdict =
     (if list_all (\<lambda>k. k \<in> set fieldnames) (map fst rowdict)
      then Inr (map (\<lambda>k. case map_of rowdict k of None \<Rightarrow> None | Some v \<Rightarrow> v) fieldnames)
      else Inl ValueError)"

fun dicts_to_rows ::
  "string option list \<Rightarrow> (string option \<times> string option) list list \<Rightarrow> error + string option list list" where
  "dicts_to_rows fieldnames [] = Inr []"
| "dicts_to_rows fieldnames (d # ds) =
     (case dict_to_row fieldnames d of
        Inl e \<Rightarrow> Inl e
      | Inr r \<Rightarrow> (case dicts_to_rows fieldnames ds of Inl e \<Rightarrow> Inl e | Inr rs \<Rightarrow> Inr (r # rs)))"

text \<open>
  \<open>__generate_metadata\<close>: the header is the key list of the first dictionary
  (\<open>metadata[0]\<close> raises \<open>IndexError\<close> when there is no item); the result is the
  cells of \<open>metadata.csv\<close>, header first.
\<close>

definition generate_metadata :: "string \<Rightarrow> 'img slot list list \<Rightarrow> error + string option list list" where
  "generate_metadata token_name token_data =
     (let metadata = map (\<lambda>(i, item). metadata_dict token_name i item)
                       (zip [0..<length token_data] token_data)
      in case metadata of
           [] \<Rightarrow> Inl IndexError
         | first # rest \<Rightarrow>
             (let fieldnames = map fst first
              in case dicts_to_rows fieldnames metadata of
                   Inl e \<Rightarrow> Inl e
                 | Inr rows \<Rightarrow> Inr (fieldnames # rows)))"

section \<open>Statistics\<close>

text \<open>\<open>astype(dtype='U')\<close> on one cell: \<open>None\<close> becomes the string \<open>'None'\<close>.\<close>

definition astype_U :: "string option \<Rightarrow> string" where
  "astype_U x = (case x of None \<Rightarrow> ''None'' | Some s \<Rightarrow> s)"

text \<open>\<open>np.vstack(token_data[:, :, :2])\<close>: every slot's (type, name) pair, item after item.\<close>

definition vstack_type_name :: "'img slot list list \<Rightarrow> (string option \<times> string option) list" where
  "vstack_type_name token_data = concat (map (map (\<lambda>(ty, nm, im). (ty, nm))) token_data)"

text \<open>
  \<open>np.split(ary, n)\<close> with a number of sections: \<open>n\<close> equal parts, a \<open>ValueError\<close>
  when the length is not a multiple of \<open>n\<close> (or \<open>n\<close> is 0, through the division).
\<close>

fun chunks :: "nat \<Rightarrow> nat \<Rightarrow> 'a list \<Rightarrow> 'a list list" where
  "chunks 0 len xs = []"
| "chunks (Suc n) len xs = take len xs # chunks n len (drop len xs)"

definition np_split_sections :: "'a list \<Rightarrow> nat \<Rightarrow> error + 'a list list" where
  "np_split_sections ary n =
     (if n = 0 \<or> length ary mod n \<noteq> 0 then Inl ValueError
      else Inr (chunks n (length ary div n) ary))"

text \<open>
  \<open>__generate_trait_frequencies\<close>: the rows of \<open>trait_frequencies.csv\<close> (the distinct
  stringified pairs in sorted order, each with its count) and, returned to the caller,
  for every item the frequency of each of its slots. \<open>np.vstack\<close> of no item is a
  \<open>ValueError\<close>.
\<close>

definition generate_trait_frequencies ::
  "'img slot list list \<Rightarrow> error + ((string \<times> string \<times> nat) list \<times> nat list list)" where
  "generate_trait_frequencies token_data =
     (if token_data = [] then Inl ValueError
      else
        (let filtered_traits = map (\<lambda>(ty, nm). (astype_U ty, astype_U nm)) (vstack_type_name token_data);
             unique_traits = sort (remdups filtered_traits);
             trait_statistics = map (\<lambda>(ty, nm). (ty, nm, count_list filtered_traits (ty, nm))) unique_traits
         in case np_split_sections (map (count_list filtered_traits) filtered_traits) (length token_data) of
              Inl e \<Rightarrow> Inl e
            | Inr trait_frequencies \<Rightarrow> Inr (trait_statistics, trait_frequencies)))"

text \<open>Python truthiness of a name cell, as \<open>np.count_nonzero\<close> sees it on an object array.\<close>

definition truthy :: "string option \<Rightarrow> bool" where
  "truthy x = (case x of None \<Rightarrow> False | Some s \<Rightarrow> s \<noteq> [])"

text \<open>
  \<open>__generate_trait_count_frequencies\<close>: the rows of \<open>trait_count_frequencies.csv\<close>
  and, for every item, the frequency of its count of names that are not \<open>None\<close>.
\<close>

definition generate_trait_count_frequencies ::
  "'img slot list list \<Rightarrow> (nat \<times> nat) list \<times> nat list" where
  "generate_trait_count_frequencies token_data =
     (let traits_counts = map (\<lambda>item. length (filter (\<lambda>(ty, nm, im). truthy nm) item)) token_data;
          unique_trait_counts = sort (remdups traits_counts);
          trait_count_statistics = map (\<lambda>c. (c, count_list traits_counts c)) unique_trait_counts
      in (trait_count_statistics, map (count_list traits_counts) traits_counts))"

text \<open>
  \<open>__generate_rarities\<close>: each item's slot frequencies and its trait count frequency are
  put in one row (\<open>np.column_stack\<close>), and the score is the sum of
  \<open>len(frequencies) / x\<close> over that row. Frequencies are counts of occurrences, so no
  \<open>x\<close> is 0; the quotients are kept exact.
\<close>

definition generate_rarities ::
  "string \<Rightarrow> nat list list \<Rightarrow> nat list \<Rightarrow> (string \<times> rat) list" where
  "generate_rarities token_name trait_frequencies trait_count_frequencies =
     (let frequencies = map (\<lambda>(fs, c). fs @ [c]) (zip trait_frequencies trait_count_frequencies);
          rarity_scores = map (\<lambda>xs. sum_list (map (\<lambda>x. of_nat (length frequencies) / of_nat x) xs))
                            frequencies
      in zip (map (token_label token_name) [0..<length frequencies]) rarity_scores)"

record statistics =
  trait_frequencies_csv :: "(string \<times> string \<times> nat) list"
  trait_count_frequencies_csv :: "(nat \<times> nat) list"
  rarity_scores_csv :: "(string \<times> rat) list"

definition generate_statistics :: "string \<Rightarrow> 'img slot list list \<Rightarrow> error + statistics" where
  "generate_statistics token_name token_data =
     (case generate_trait_frequencies token_data of
        Inl e \<Rightarrow> Inl e
      | Inr (trait_statistics, trait_frequencies) \<Rightarrow>
          (case generate_trait_count_frequencies token_data of
             (trait_count_statistics, trait_count_frequencies) \<Rightarrow>
               Inr \<lparr>trait_frequencies_csv = trait_statistics,
                    trait_count_frequencies_csv = trait_count_statistics,
                    rarity_scores_csv =
                      generate_rarities token_name trait_frequencies trait_count_frequencies\<rparr>))"

section \<open>Images\<close>

text \<open>
  \<open>__combine_images\<close>; an image object is truthy, \<open>None\<close> is not, and when both are
  \<open>None\<close> no branch returns, which is \<open>None\<close>. \<open>alpha_composite\<close> stands for
  \<open>Image.alpha_composite\<close>, which raises a \<open>ValueError\<close> for two images that differ
  in mode or size; \<open>_load_trait_image\<close> converts every image to one mode and resizes
  none.
\<close>

fun combine_images ::
  "('img \<Rightarrow> 'img \<Rightarrow> error + 'img) \<Rightarrow> 'img option \<Rightarrow> 'img option \<Rightarrow> error + 'img option" where
  "combine_images alpha_composite (Some first) (Some second) =
     (case alpha_composite first second of Inl e \<Rightarrow> Inl e | Inr combined \<Rightarrow> Inr (Some combined))"
| "combine_images alpha_composite (Some first) None = Inr (Some first)"
| "combine_images alpha_composite None (Some second) = Inr (Some second)"
| "combine_images alpha_composite None None = Inr None"

text \<open>
  \<open>functools.reduce\<close> without an initial value: a \<open>TypeError\<close> on no element; an
  exception of the function ends the reduction.
\<close>

fun reduce_from :: "('a \<Rightarrow> 'a \<Rightarrow> error + 'a) \<Rightarrow> 'a \<Rightarrow> 'a list \<Rightarrow> error + 'a" where
  "reduce_from f acc [] = Inr acc"
| "reduce_from f acc (x # xs) = (case f acc x of Inl e \<Rightarrow> Inl e | Inr acc' \<Rightarrow> reduce_from f acc' xs)"

definition reduce :: "('a \<Rightarrow> 'a \<Rightarrow> error + 'a) \<Rightarrow> 'a list \<Rightarrow> error + 'a" where
  "reduce f xs = (case xs of [] \<Rightarrow> Inl TypeError | x # rest \<Rightarrow> reduce_from f x rest)"

text \<open>
  \<open>__generate_images\<close>: the items are combined and saved one after the other; the result
  is the images saved, in order, and the exception that stopped the loop, if any.
  \<open>combined_image.save\<close> on \<open>None\<close> is an \<open>AttributeError\<close>.
\<close>

fun generate_images ::
  "('img \<Rightarrow> 'img \<Rightarrow> error + 'img) \<Rightarrow> 'img slot list list \<Rightarrow> 'img list \<times> error option" where
  "generate_images alpha_composite [] = ([], None)"
| "generate_images alpha_composite (item # items) =
     (case reduce (combine_images alpha_composite) (map (\<lambda>(ty, nm, im). im) item) of
        Inl e \<Rightarrow> ([], Some e)
      | Inr None \<Rightarrow> ([], Some AttributeError)
      | Inr (Some combined_image) \<Rightarrow>
          (case generate_images alpha_composite items of
             (saved, err) \<Rightarrow> (combined_image # saved, err)))"

section \<open>The command\<close>

text \<open>
  What \<open>generate_content\<close> takes from outside the module: numpy's bit generator and
  its seeding, the entropy the operating system supplies when no seed is given, the
  clock, Python's \<open>int\<close>, numpy's sort of a long column, and the image library.
\<close>

record ('g, 'img) environment =
  bit_generator :: "'g \<Rightarrow> 64 word \<times> 'g"
  seeded_state :: "nat \<Rightarrow> 'g"
  os_entropy :: nat
  clock :: string
  int_of_cell :: "string \<Rightarrow> int option"
  np_argsort :: "string option list \<Rightarrow> nat list"
  open_image :: "string \<Rightarrow> error + 'img"
  image_composite :: "'img \<Rightarrow> 'img \<Rightarrow> error + 'img"

text \<open>\<open>np.random.default_rng(seed=seed)\<close>: without a seed, fresh entropy seeds the generator.\<close>

definition default_rng :: "('g, 'img) environment \<Rightarrow> nat option \<Rightarrow> 'g" where
  "default_rng env seed = seeded_state env (case seed of None \<Rightarrow> os_entropy env | Some s \<Rightarrow> s)"

text \<open>
  The first four statements of \<open>generate_content\<close>: generator, table, groups, token
  data. The result is the generated set, an exception, or \<open>None\<close> when the sampling loop
  never ends.
\<close>

definition sample_token_data ::
  "('g, 'img) environment \<Rightarrow> string list list \<Rightarrow> nat \<Rightarrow> nat option \<Rightarrow>
     (error + 'img slot list list) option" where
  "sample_token_data env rows amount seed =
     (let rng = default_rng env seed
      in case load_traits (int_of_cell env) (open_image env) rows of
           Inl e \<Rightarrow> Some (Inl e)
         | Inr traits \<Rightarrow>
             (case get_normalized_rarity_weight_groups (np_argsort env) traits of
                Inl e \<Rightarrow> Some (Inl e)
              | Inr rarity_weight_groups \<Rightarrow>
                  generate_token_data (bit_generator env) traits rarity_weight_groups amount rng))"

record 'img content =
  out_dir :: string
  metadata_csv :: "string option list list"
  statistics_csv :: statistics
  images :: "'img list"

text \<open>
  \<open>generate_content\<close> after argument parsing: the output directory is named after the
  token and the time, then metadata, statistics and images are written in this order.
  Files written before an exception are not part of the result.
\<close>

definition generate_content ::
  "('g, 'img) environment \<Rightarrow> string \<Rightarrow> string list list \<Rightarrow> string \<Rightarrow> nat \<Rightarrow> nat option \<Rightarrow>
     (error + 'img content) option" where
  "generate_content env token_name rows out amount seed =
     (case sample_token_data env rows amount seed of
        None \<Rightarrow> None
      | Some (Inl e) \<Rightarrow> Some (Inl e)
      | Some (Inr token_data) \<Rightarrow>
          (case generate_metadata token_name token_data of
             Inl e \<Rightarrow> Some (Inl e)
           | Inr metadata \<Rightarrow>
               (case generate_statistics token_name token_data of
                  Inl e \<Rightarrow> Some (Inl e)
                | Inr stats \<Rightarrow>
                    (case generate_images (image_composite env) token_data of
                       (saved, Some e) \<Rightarrow> Some (Inl e)
                     | (saved, None) \<Rightarrow>
                         Some (Inr \<lparr>out_dir = out @ ''/'' @ token_name @ '' '' @ clock env,
                                    metadata_csv = metadata, statistics_csv = stats,
                                    images = saved\<rparr>)))))"

section \<open>Notions used in the properties\<close>

text \<open>
  The maximal runs of equal key in a list. On the type-sorted index list these are the
  pieces \<open>np.split\<close> cuts (lemma \<open>np_split_unique_index\<close> below).
\<close>

function group_runs :: "('a \<Rightarrow> 'k) \<Rightarrow> 'a list \<Rightarrow> 'a list list" where
  "group_runs f [] = []"
| "group_runs f (y # ys) =
     (y # takeWhile (\<lambda>z. f z = f y) ys) # group_runs f (dropWhile (\<lambda>z. f z = f y) ys)"
  by pat_completeness auto
termination
  by (relation "measure (\<lambda>(f, ys). length ys)") (auto simp: length_dropWhile_le less_Suc_eq_le)

text \<open>The total rarity weight of the rows of one trait type, as the table gives it.\<close>

definition category_total :: "'img trait list \<Rightarrow> string option \<Rightarrow> int" where
  "category_total traits c = sum_list (map rarity_weight (filter (\<lambda>t. trait_type t = c) traits))"

text \<open>Column 0 of a row, and the row's entry in the indexed weight array.\<close>

abbreviation (input) type_at :: "'img trait list \<Rightarrow> nat \<Rightarrow> string option" where
  "type_at traits \<equiv> \<lambda>i. trait_type (traits ! i)"

abbreviation (input) weight_at :: "'img trait list \<Rightarrow> nat \<Rightarrow> nat \<times> float64" where
  "weight_at traits \<equiv> \<lambda>i. (i, round64 (of_int (rarity_weight (traits ! i))))"

text \<open>
  The pieces of \<open>round64\<close>: the magnitude in units of \<open>2 ^ -1074\<close>, the exponent of
  the spacing, the rounded significand and the rounded magnitude.
\<close>

definition scaled :: "rat \<Rightarrow> rat" where
  "scaled x = \<bar>x\<bar> * two_p 1074"

definition quantum :: "rat \<Rightarrow> nat" where
  "quantum x = floorlog 2 (nat \<lfloor>scaled x\<rfloor>) - 53"

definition mantissa :: "rat \<Rightarrow> int" where
  "mantissa x = round_half_even (scaled x / two_p (quantum x))"

definition magnitude :: "rat \<Rightarrow> rat" where
  "magnitude x = of_int (mantissa x) * two_p (quantum x) / two_p 1074"

text \<open>A \<open>float64\<close> that is not negative, and one that is at least 1 (\<open>+inf\<close> included).\<close>

definition not_negative :: "float64 \<Rightarrow> bool" where
  "not_negative v = (case v of Finite y \<Rightarrow> 0 \<le> y | PosInf \<Rightarrow> True | _ \<Rightarrow> False)"

definition at_least_one :: "float64 \<Rightarrow> bool" where
  "at_least_one v = (case v of Finite y \<Rightarrow> 1 \<le> y | PosInf \<Rightarrow> True | _ \<Rightarrow> False)"

text \<open>
  The groups \<open>rng.choice\<close> accepts: not empty, every probability finite and not
  negative, the sum within \<open>atol\<close> of 1.
\<close>

definition valid_probabilities :: "(nat \<times> float64) list \<Rightarrow> bool" where
  "valid_probabilities grp =
     (grp \<noteq> [] \<and>
      (case finite_values (map snd grp) of
         None \<Rightarrow> False
       | Some ps \<Rightarrow> \<not> list_ex (\<lambda>x. x < 0) ps \<and> \<not> atol < \<bar>sum_list ps - 1\<bar>))"

text \<open>Row index \<open>i\<close> stands in the group with a finite, strictly positive probability.\<close>

definition drawn_from :: "nat \<Rightarrow> (nat \<times> float64) list \<Rightarrow> bool" where
  "drawn_from i grp = list_ex (\<lambda>(j, p). j = i \<and> (case p of Finite w \<Rightarrow> 0 < w | _ \<Rightarrow> False)) grp"


definition slot_types :: "'img slot list \<Rightarrow> string option list" where
  "slot_types item = map (\<lambda>(ty, nm, im). ty) item"

section \<open>Example inputs\<close>

text \<open>A sorting permutation to stand for numpy's on long columns: the insertion sort.\<close>

definition insertion_argsort :: "string option list \<Rightarrow> nat list" where
  "insertion_argsort column = sort_key ((!) column) [0..<length column]"

text \<open>
  A table whose two \<open>Background\<close> rows have a \<open>Mouth\<close> row between them, its
  normalised groups, and a bit generator (its state counts the outputs taken) whose third
  output has the top bit set, so that the third draw is \<open>0.5\<close> and all others are \<open>0\<close>.
  Images are named by their file.
\<close>

definition interleaved_traits :: "string trait list" where
  "interleaved_traits =
     [\<lparr>trait_type = Some ''Background'', trait_name = Some ''A'', rarity_weight = 1, trait_image = Some ''A.png''\<rparr>,
      \<lparr>trait_type = Some ''Mouth'', trait_name = Some ''X'', rarity_weight = 1, trait_image = Some ''X.png''\<rparr>,
      \<lparr>trait_type = Some ''Background'', trait_name = Some ''B'', rarity_weight = 1, trait_image = Some ''B.png''\<rparr>]"

definition interleaved_groups :: "(nat \<times> float64) list list" where
  "interleaved_groups = [[(0, Finite (1 / 2)), (2, Finite (1 / 2))], [(1, Finite 1)]]"

definition interleaved_bits :: "int \<Rightarrow> 64 word \<times> int" where
  "interleaved_bits n = (if n = 2 then 2 ^ 63 else 0, n + 1)"

text \<open>The two items the run on this input produces.\<close>

definition interleaved_items :: "string slot list list" where
  "interleaved_items =
     [[(Some ''Background'', Some ''A'', Some ''A.png''), (Some ''Mouth'', Some ''X'', Some ''X.png'')],
      [(Some ''Mouth'', Some ''X'', Some ''X.png''), (Some ''Background'', Some ''B'', Some ''B.png'')]]"


text \<open>A table whose only trait type has total weight 0.\<close>

definition zero_weight_traits :: "string trait list" where
  "zero_weight_traits =
     [\<lparr>trait_type = Some ''Hat'', trait_name = Some ''Cap'', rarity_weight = 0, trait_image = Some ''Cap.png''\<rparr>]"


text \<open>
  Two trait types with two names each, so four name tuples in all, and the groups the
  normaliser returns for them.
\<close>

definition two_by_two_traits :: "string trait list" where
  "two_by_two_traits =
     [\<lparr>trait_type = Some ''Hat'', trait_name = Some ''A'', rarity_weight = 1, trait_image = Some ''A.png''\<rparr>,
      \<lparr>trait_type = Some ''Hat'', trait_name = Some ''B'', rarity_weight = 1, trait_image = Some ''B.png''\<rparr>,
      \<lparr>trait_type = Some ''Shoe'', trait_name = Some ''X'', rarity_weight = 1, trait_image = Some ''X.png''\<rparr>,
      \<lparr>trait_type = Some ''Shoe'', trait_name = Some ''Y'', rarity_weight = 1, trait_image = Some ''Y.png''\<rparr>]"

definition two_by_two_groups :: "(nat \<times> float64) list list" where
  "two_by_two_groups = [[(0, Finite (1 / 2)), (1, Finite (1 / 2))], [(2, Finite (1 / 2)), (3, Finite (1 / 2))]]"

text \<open>
  A table with a row without name and image (the \<open>Accessories,,4,\<close> row of the command's
  help text), its normalised groups and the one item generated from it.
\<close>

definition absent_slot_traits :: "string trait list" where
  "absent_slot_traits =
     [\<lparr>trait_type = Some ''Background'', trait_name = Some ''Green'', rarity_weight = 4,
       trait_image = Some ''Green.png''\<rparr>,
      \<lparr>trait_type = Some ''Accessories'', trait_name = None, rarity_weight = 4, trait_image = None\<rparr>]"

definition absent_slot_groups :: "(nat \<times> float64) list list" where
  "absent_slot_groups = [[(1, Finite 1)], [(0, Finite 1)]]"

definition absent_slot_items :: "string slot list list" where
  "absent_slot_items =
     [[(Some ''Background'', Some ''Green'', Some ''Green.png''), (Some ''Accessories'', None, None)]]"

text \<open>
  The rarity score as the specification words it: the sum, over the slots of the item
  whose name is not absent, of the number of items divided by the frequency of the slot's
  (type, name) pair, plus the number of items divided by the frequency of the item's count
  of non-absent names.
\<close>

definition pair_frequency :: "'img slot list list \<Rightarrow> string option \<Rightarrow> string option \<Rightarrow> nat" where
  "pair_frequency token_data ty nm = count_list (vstack_type_name token_data) (ty, nm)"

definition trait_count :: "'img slot list \<Rightarrow> nat" where
  "trait_count item = length (filter (\<lambda>(ty, nm, im). nm \<noteq> None) item)"

definition claimed_rarity_score :: "'img slot list list \<Rightarrow> 'img slot list \<Rightarrow> rat" where
  "claimed_rarity_score token_data item =
     sum_list (map (\<lambda>(ty, nm, im). of_nat (length token_data) / of_nat (pair_frequency token_data ty nm))
                (filter (\<lambda>(ty, nm, im). nm \<noteq> None) item)) +
     of_nat (length token_data) / of_nat (count_list (map trait_count token_data) (trait_count item))"

text \<open>An item whose only slot has no image, and a set with a visible item before it.\<close>

definition all_absent_item :: "string slot list" where
  "all_absent_item = [(Some ''Accessories'', None, None)]"

definition visible_item :: "string slot list" where
  "visible_item = [(Some ''Background'', Some ''Green'', Some ''Green.png'')]"

text \<open>What of a finished run is a function of table, amount and seed: everything but the directory's name.\<close>

definition content_files ::
  "'img content \<Rightarrow> string option list list \<times> statistics \<times> 'img list" where
  "content_files c = (metadata_csv c, statistics_csv c, images c)"



text \<open>
  A compositor for images named by their file: the two names joined. It stands for an
  image library on layers of one size.
\<close>

definition layer_composite :: "string \<Rightarrow> string \<Rightarrow> error + string" where
  "layer_composite first second = Inr (first @ ''+'' @ second)"






section \<open>Rounding to \<open>float64\<close>\<close>

lemma two_p_pos [simp]: "0 < two_p n" "0 \<le> two_p n" "two_p n \<noteq> 0"
  by (simp_all add: two_p_def)

lemma two_p_not_le [simp]: "\<not> two_p n \<le> 0" "\<not> two_p n < 0"
  by (simp_all add: two_p_def not_le not_less)

lemma two_p_add: "two_p (a + b) = two_p a * two_p b"
  by (simp add: two_p_def power_add)

lemma two_p_0 [simp]: "two_p 0 = 1"
  by (simp add: two_p_def)

lemma two_p_mono: "a \<le> b \<Longrightarrow> two_p a \<le> two_p b"
  by (simp add: two_p_def power_increasing)


lemma two_p_ge_1 [simp]: "1 \<le> two_p n"
  by (simp add: two_p_def)

lemma two_p_diff: "b \<le> a \<Longrightarrow> two_p a / two_p b = two_p (a - b)"
  by (simp add: two_p_def power_diff)

lemma two_p_of_nat: "two_p n = of_nat (2 ^ n)"
  by (simp add: two_p_def)

lemma round_half_even_int [simp]: "round_half_even (of_int z) = z"
  by (simp add: round_half_even_def)

lemma round_half_even_nat [simp]: "round_half_even (of_nat n) = int n"
  using round_half_even_int [of "int n"] by simp


lemma round_half_even_le: "y \<le> of_int z \<Longrightarrow> round_half_even y \<le> z"
proof -
  assume a: "y \<le> of_int z"
  show ?thesis
  proof (cases "y = of_int z")
    case True
    then show ?thesis by simp
  next
    case False
    with a have "y < of_int z" by simp
    then have "\<lfloor>y\<rfloor> < z" by (simp add: floor_less_iff)
    then have "\<lfloor>y\<rfloor> + 1 \<le> z" by simp
    then show ?thesis by (auto simp: round_half_even_def Let_def)
  qed
qed


lemma round_half_even_0 [simp]: "round_half_even 0 = 0"
  using round_half_even_int [of 0] by simp

lemma round64_0 [simp]: "round64 0 = Finite 0"
proof -
  have "\<not> two_p 1024 \<le> 0" by (simp add: not_le)
  then show ?thesis by (simp add: round64_def floorlog_def Let_def)
qed

lemma round64_alt:
  "round64 x = (if two_p 1024 \<le> magnitude x then (if 0 < x then PosInf else NegInf)
                else Finite (if x < 0 then - magnitude x else magnitude x))"
  by (simp add: round64_def Let_def magnitude_def mantissa_def quantum_def scaled_def)

lemma scaled_nonneg [simp]: "0 \<le> scaled x"
  by (simp add: scaled_def)




lemma two_p_of_int: "two_p n = of_int (2 ^ n)"
  by (simp add: two_p_def)

lemma quantum_upper: "scaled x < two_p (quantum x + 53)"
proof -
  define n where "n = nat \<lfloor>scaled x\<rfloor>"
  have fl: "floorlog 2 n \<le> quantum x + 53" by (simp add: quantum_def n_def)
  show ?thesis
  proof (cases "n = 0")
    case True
    then have "\<lfloor>scaled x\<rfloor> < 1" by (simp add: n_def)
    then have "scaled x < 1" by (simp add: floor_less_iff)
    also have "1 \<le> two_p (quantum x + 53)" by simp
    finally show ?thesis .
  next
    case False
    then have "n < 2 ^ floorlog 2 n" using floorlog_bounds [of n 2] by simp
    also have "(2::nat) ^ floorlog 2 n \<le> 2 ^ (quantum x + 53)" using fl by (simp add: power_increasing)
    finally have lt: "int n < 2 ^ (quantum x + 53)" by (metis of_nat_less_iff of_nat_numeral of_nat_power)
    have le: "\<lfloor>scaled x\<rfloor> \<le> int n" by (simp add: n_def)
    from le lt have "\<lfloor>scaled x\<rfloor> < 2 ^ (quantum x + 53)" by (rule le_less_trans)
    then have "scaled x < of_int (2 ^ (quantum x + 53))" by (simp only: floor_less_iff)
    then show ?thesis by (simp only: two_p_of_int)
  qed
qed

lemma quantum_lower:
  assumes "0 < quantum x"
  shows "two_p (quantum x + 52) \<le> scaled x"
proof -
  define n where "n = nat \<lfloor>scaled x\<rfloor>"
  have fl: "floorlog 2 n = quantum x + 53" using assms by (simp add: quantum_def n_def)
  then have pos: "0 < n" by (auto simp: floorlog_def split: if_splits)
  have "2 ^ (floorlog 2 n - 1) \<le> n" using floorlog_bounds [of n 2] pos by simp
  then have "(2::nat) ^ (quantum x + 52) \<le> n" by (simp add: fl add.commute)
  then have "int (2 ^ (quantum x + 52)) \<le> int n" by (simp only: of_nat_le_iff)
  then have "(2::int) ^ (quantum x + 52) \<le> \<lfloor>scaled x\<rfloor>" using pos by (simp add: n_def)
  then have "of_int (2 ^ (quantum x + 52)) \<le> scaled x" by (simp only: le_floor_iff)
  then show ?thesis by (simp only: two_p_of_int)
qed

lemma mantissa_le: "mantissa x \<le> 2 ^ 53"
proof -
  have "scaled x < two_p (53 + quantum x)" using quantum_upper [of x] by (simp add: add.commute)
  then have "scaled x / two_p (quantum x) < two_p 53"
    by (simp add: two_p_add divide_less_eq)
  then have "scaled x / two_p (quantum x) \<le> of_int (2 ^ 53)" by (simp only: two_p_of_int)
  then show ?thesis unfolding mantissa_def by (rule round_half_even_le)
qed


lemma magnitude_exact:
  assumes "scaled x = of_int z * two_p (quantum x)"
  shows "magnitude x = \<bar>x\<bar>"
proof -
  have "scaled x / two_p (quantum x) = of_int z" using assms by simp
  then have "mantissa x = z" by (simp add: mantissa_def)
  then have "magnitude x = scaled x / two_p 1074" using assms by (simp add: magnitude_def)
  then show ?thesis by (simp add: scaled_def)
qed

lemma quantum_le:
  assumes "scaled x < two_p (j + 53)"
  shows "quantum x \<le> j"
proof (rule ccontr)
  assume "\<not> quantum x \<le> j"
  then have j: "j < quantum x" by simp
  then have "two_p (quantum x + 52) \<le> scaled x" by (intro quantum_lower) simp
  moreover have "two_p (j + 53) \<le> two_p (quantum x + 52)" using j by (intro two_p_mono) simp
  ultimately show False using assms by simp
qed

lemma quantum_ge:
  assumes "two_p (j + 53) \<le> scaled x"
  shows "j < quantum x"
proof (rule ccontr)
  assume "\<not> j < quantum x"
  then have "quantum x + 53 \<le> j + 53" by simp
  then have "two_p (quantum x + 53) \<le> two_p (j + 53)" by (rule two_p_mono)
  with quantum_upper [of x] assms show False by simp
qed

lemma round64_of_nat:
  assumes "m < 2 ^ 53"
  shows "round64 (of_nat m) = Finite (of_nat m)"
proof -
  let ?x = "of_nat m :: rat"
  have s: "scaled ?x = of_nat m * two_p 1074" by (simp add: scaled_def)
  have "(of_nat m :: rat) < of_nat (2 ^ 53)" using assms by (simp only: of_nat_less_iff)
  then have "(of_nat m :: rat) < two_p 53" by (simp only: two_p_of_nat)
  then have "scaled ?x < two_p 53 * two_p 1074" unfolding s by (simp add: mult_less_cancel_right)
  moreover have "two_p 53 * two_p 1074 = two_p (1074 + 53)" by (simp only: two_p_add mult.commute)
  ultimately have "scaled ?x < two_p (1074 + 53)" by (simp only:)
  then have q: "quantum ?x \<le> 1074" by (rule quantum_le)
  have "two_p 1074 = two_p (1074 - quantum ?x) * two_p (quantum ?x)"
    using q by (simp add: two_p_add [symmetric])
  then have "scaled ?x = of_int (int m * 2 ^ (1074 - quantum ?x)) * two_p (quantum ?x)"
    unfolding s by (simp add: two_p_def)
  then have "magnitude ?x = \<bar>?x\<bar>" by (rule magnitude_exact)
  then have e: "magnitude ?x = ?x" by simp
  have "?x < two_p 53" by fact
  also have "two_p 53 \<le> two_p 1024" by (rule two_p_mono) simp
  finally have "\<not> two_p 1024 \<le> ?x" by simp
  then show ?thesis by (simp add: round64_alt e)
qed

lemma round64_normal:
  assumes "2 ^ 52 \<le> m" and "m < 2 ^ 53"
  shows "round64 (of_nat m * two_p j / two_p 1074) =
         (if j \<le> 2045 then Finite (of_nat m * two_p j / two_p 1074) else PosInf)"
proof -
  let ?x = "of_nat m * two_p j / two_p 1074 :: rat"
  have pos: "0 < ?x" using assms(1) by simp
  have s: "scaled ?x = of_nat m * two_p j" by (simp add: scaled_def)
  have lo: "two_p 52 \<le> of_nat m" and hi: "(of_nat m :: rat) < two_p 53"
    unfolding two_p_of_nat using assms by (simp_all only: of_nat_le_iff of_nat_less_iff)
  have "scaled ?x < two_p 53 * two_p j" unfolding s using hi by (simp add: mult_less_cancel_right)
  then have "scaled ?x < two_p (j + 53)" by (simp add: two_p_add mult.commute)
  then have q1: "quantum ?x \<le> j" by (rule quantum_le)
  have q2: "j \<le> quantum ?x"
  proof (cases j)
    case 0
    then show ?thesis by simp
  next
    case (Suc i)
    have "two_p 52 * two_p j \<le> scaled ?x" unfolding s using lo by (simp add: mult_le_cancel_right)
    then have "two_p (i + 53) \<le> scaled ?x" by (simp add: Suc two_p_add [symmetric] add.commute)
    then have "i < quantum ?x" by (rule quantum_ge)
    then show ?thesis using Suc by simp
  qed
  from q1 q2 have q: "quantum ?x = j" by simp
  have "scaled ?x = of_int (int m) * two_p (quantum ?x)" unfolding q s by simp
  then have "magnitude ?x = \<bar>?x\<bar>" by (rule magnitude_exact)
  then have e: "magnitude ?x = ?x" using pos by simp
  show ?thesis
  proof (cases "j \<le> 2045")
    case True
    have "?x < two_p 53 * two_p j / two_p 1074" using hi by (simp add: divide_less_cancel mult_less_cancel_right)
    also have "\<dots> \<le> two_p 53 * two_p 2045 / two_p 1074"
      using True by (simp add: divide_le_cancel two_p_mono)
    also have "\<dots> = two_p 1024"
    proof -
      have "two_p 53 * two_p 2045 = two_p 1024 * two_p 1074" by (simp add: two_p_add [symmetric])
      then show ?thesis by simp
    qed
    finally have "\<not> two_p 1024 \<le> ?x" by simp
    then show ?thesis using True pos by (simp add: round64_alt e)
  next
    case False
    then have "2046 \<le> j" by simp
    have "two_p 1024 = two_p 52 * two_p 2046 / two_p 1074"
    proof -
      have "two_p 52 * two_p 2046 = two_p 1024 * two_p 1074" by (simp add: two_p_add [symmetric])
      then show ?thesis by simp
    qed
    also have "\<dots> \<le> two_p 52 * two_p j / two_p 1074"
      using \<open>2046 \<le> j\<close> by (simp add: divide_le_cancel two_p_mono)
    also have "\<dots> \<le> ?x" using lo by (simp add: divide_le_cancel mult_le_cancel_right)
    finally have "two_p 1024 \<le> ?x" .
    then show ?thesis using False pos by (simp add: round64_alt e)
  qed
qed


lemma magnitude_0 [simp]: "magnitude 0 = 0"
  by (simp add: magnitude_def mantissa_def scaled_def)




lemma at_least_one_not_negative: "at_least_one v \<Longrightarrow> not_negative v"
  by (cases v) (simp_all add: at_least_one_def not_negative_def)




lemma round64_half [simp]: "round64 (1 / 2) = Finite (1 / 2)"
proof -
  have "two_p 1074 = of_nat (2 ^ 52) * two_p 1021 * 2" by (simp add: two_p_def)
  then have "of_nat (2 ^ 52) * two_p 1021 / two_p 1074 = (1 / 2 :: rat)" by simp
  with round64_normal [of "2 ^ 52" 1021] show ?thesis by simp
qed

lemma round64_numeral [simp]:
  "numeral n < (2 ^ 53 :: nat) \<Longrightarrow> round64 (numeral n) = Finite (numeral n)"
  using round64_of_nat [of "numeral n"] by simp

lemma round64_1 [simp]: "round64 1 = Finite 1"
  using round64_of_nat [of 1] by simp

section \<open>Sums of \<open>float64\<close> arrays\<close>

declare unrolled_sum.simps [simp del] pairwise_sum.simps [simp del]

lemma foldl_fadd_invariant:
  fixes R :: "float64 \<Rightarrow> 'b::comm_monoid_add \<Rightarrow> bool"
  assumes add: "\<And>a b s t. R a s \<Longrightarrow> R b t \<Longrightarrow> R (fadd a b) (s + t)"
  shows "list_all2 R xs ss \<Longrightarrow> R acc s \<Longrightarrow> R (foldl fadd acc xs) (s + sum_list ss)"
proof (induction xs ss arbitrary: acc s rule: list_all2_induct)
  case Nil
  then show ?case by simp
next
  case (Cons x xs t ss)
  have "R (fadd acc x) (s + t)" using Cons.prems Cons.hyps(1) by (rule add)
  from Cons.IH [OF this] show ?case by (simp add: add.assoc)
qed

lemma length_8: "length xs = 8 \<Longrightarrow> \<exists>a b c d e f g h. xs = [a, b, c, d, e, f, g, h]"
  by (simp add: eval_nat_numeral length_Suc_conv) blast

lemma pairwise_tree_invariant:
  fixes R :: "float64 \<Rightarrow> 'b::comm_monoid_add \<Rightarrow> bool"
  assumes add: "\<And>a b s t. R a s \<Longrightarrow> R b t \<Longrightarrow> R (fadd a b) (s + t)"
    and r: "list_all2 R r rs" and len: "length r = 8"
  shows "R (pairwise_tree r) (sum_list rs)"
proof -
  from len obtain a0 a1 a2 a3 a4 a5 a6 a7 where r8: "r = [a0, a1, a2, a3, a4, a5, a6, a7]"
    using length_8 by blast
  from r len have "length rs = 8" by (simp add: list_all2_lengthD [symmetric])
  then obtain s0 s1 s2 s3 s4 s5 s6 s7 where rs8: "rs = [s0, s1, s2, s3, s4, s5, s6, s7]"
    using length_8 by blast
  from r have e: "R a0 s0" "R a1 s1" "R a2 s2" "R a3 s3" "R a4 s4" "R a5 s5" "R a6 s6" "R a7 s7"
    unfolding r8 rs8 by simp_all
  have "R (fadd (fadd (fadd a0 a1) (fadd a2 a3)) (fadd (fadd a4 a5) (fadd a6 a7)))
          (((s0 + s1) + (s2 + s3)) + ((s4 + s5) + (s6 + s7)))"
    by (intro add e)
  moreover have "((s0 + s1) + (s2 + s3)) + ((s4 + s5) + (s6 + s7)) = sum_list rs"
    unfolding rs8 by (simp add: add.assoc)
  ultimately show ?thesis unfolding r8 pairwise_tree_def by simp
qed

lemma sum_list_map2_add:
  fixes xs ys :: "'b::comm_monoid_add list"
  shows "length xs = length ys \<Longrightarrow> sum_list (map2 (+) xs ys) = sum_list xs + sum_list ys"
proof (induction xs ys rule: list_induct2)
  case Nil
  then show ?case by simp
next
  case (Cons x xs y ys)
  then show ?case by (simp add: add.assoc add.left_commute)
qed

lemma list_all2_map2_fadd:
  fixes R :: "float64 \<Rightarrow> 'b::comm_monoid_add \<Rightarrow> bool"
  assumes add: "\<And>a b s t. R a s \<Longrightarrow> R b t \<Longrightarrow> R (fadd a b) (s + t)"
  shows "list_all2 R r rs \<Longrightarrow> list_all2 R b bs \<Longrightarrow> length r = length b \<Longrightarrow>
         list_all2 R (map2 fadd r b) (map2 (+) rs bs)"
proof (induction r rs arbitrary: b bs rule: list_all2_induct)
  case Nil
  then show ?case by simp
next
  case (Cons x xs y ys)
  from Cons.prems(2) obtain c cs where b: "b = c # cs" by (cases b) auto
  with Cons.prems(1) obtain d ds where bs: "bs = d # ds" and cd: "R c d" "list_all2 R cs ds"
    by (cases bs) auto
  from Cons.prems(2) b have l: "length xs = length cs" by simp
  have "R (fadd x c) (y + d)" using Cons.hyps(1) cd(1) by (rule add)
  with Cons.IH [OF cd(2) l] show ?case unfolding b bs by simp
qed

lemma unrolled_sum_invariant:
  fixes R :: "float64 \<Rightarrow> 'b::comm_monoid_add \<Rightarrow> bool"
  assumes add: "\<And>a b s t. R a s \<Longrightarrow> R b t \<Longrightarrow> R (fadd a b) (s + t)"
  shows "list_all2 R r rs \<Longrightarrow> length r = 8 \<Longrightarrow> list_all2 R a ss \<Longrightarrow>
         R (unrolled_sum r a) (sum_list rs + sum_list ss)"
proof (induction r a arbitrary: rs ss rule: unrolled_sum.induct)
  case (1 r a)
  show ?case
  proof (cases "8 \<le> length a")
    case True
    from "1.prems"(3) have la: "length ss = length a" by (simp add: list_all2_lengthD)
    from "1.prems"(1) have lr: "length rs = length r" by (simp add: list_all2_lengthD)
    have t: "list_all2 R (take 8 a) (take 8 ss)" using "1.prems"(3) by (rule list_all2_takeI)
    have d: "list_all2 R (drop 8 a) (drop 8 ss)" using "1.prems"(3) by (rule list_all2_dropI)
    have l8: "length r = length (take 8 a)" using True "1.prems"(2) by simp
    have m: "list_all2 R (map2 fadd r (take 8 a)) (map2 (+) rs (take 8 ss))"
      using add "1.prems"(1) t l8 by (rule list_all2_map2_fadd)
    have lm: "length (map2 fadd r (take 8 a)) = 8" using True "1.prems"(2) by simp
    have "R (unrolled_sum (map2 fadd r (take 8 a)) (drop 8 a))
            (sum_list (map2 (+) rs (take 8 ss)) + sum_list (drop 8 ss))"
      using True m lm d by (rule "1.IH")
    moreover have "sum_list (map2 (+) rs (take 8 ss)) = sum_list rs + sum_list (take 8 ss)"
      using True la lr "1.prems"(2) by (intro sum_list_map2_add) simp
    moreover have "sum_list (take 8 ss) + sum_list (drop 8 ss) = sum_list ss"
      by (simp only: sum_list_append [symmetric] append_take_drop_id)
    ultimately have "R (unrolled_sum (map2 fadd r (take 8 a)) (drop 8 a)) (sum_list rs + sum_list ss)"
      by (simp add: add.assoc)
    then show ?thesis using True by (subst unrolled_sum.simps) simp
  next
    case False
    have p: "R (pairwise_tree r) (sum_list rs)"
      using add "1.prems"(1,2) by (rule pairwise_tree_invariant)
    have "R (foldl fadd (pairwise_tree r) a) (sum_list rs + sum_list ss)"
      using foldl_fadd_invariant [where R = R, OF add "1.prems"(3) p] .
    then show ?thesis using False by (subst unrolled_sum.simps) simp
  qed
qed

lemma pairwise_sum_invariant:
  fixes R :: "float64 \<Rightarrow> 'b::comm_monoid_add \<Rightarrow> bool"
  assumes zero: "R (Finite 0) 0"
    and add: "\<And>a b s t. R a s \<Longrightarrow> R b t \<Longrightarrow> R (fadd a b) (s + t)"
  shows "list_all2 R a ss \<Longrightarrow> R (pairwise_sum a) (sum_list ss)"
proof (induction a arbitrary: ss rule: pairwise_sum.induct)
  case (1 a)
  note all = "1.prems"
  from all have la: "length ss = length a" by (simp add: list_all2_lengthD)
  have split: "sum_list (take n ss) + sum_list (drop n ss) = sum_list ss" for n
    by (simp only: sum_list_append [symmetric] append_take_drop_id)
  consider "length a < 8" | "8 \<le> length a" "length a \<le> 128" | "128 < length a" by linarith
  then show ?case
  proof cases
    case 1
    have "R (foldl fadd (Finite 0) a) (0 + sum_list ss)"
      using foldl_fadd_invariant [where R = R, OF add all zero] .
    then show ?thesis using 1 by (subst pairwise_sum.simps) simp
  next
    case 2
    have t: "list_all2 R (take 8 a) (take 8 ss)" using all by (rule list_all2_takeI)
    have d: "list_all2 R (drop 8 a) (drop 8 ss)" using all by (rule list_all2_dropI)
    have l: "length (take 8 a) = 8" using 2 by simp
    have "R (unrolled_sum (take 8 a) (drop 8 a)) (sum_list (take 8 ss) + sum_list (drop 8 ss))"
      using add t l d by (rule unrolled_sum_invariant)
    then show ?thesis using 2 by (subst pairwise_sum.simps) (simp add: split)
  next
    case 3
    let ?h = "pairwise_half (length a)"
    have c: "\<not> length a < 8" "\<not> length a \<le> 128" using 3 by simp_all
    have t: "list_all2 R (take ?h a) (take ?h ss)" using all by (rule list_all2_takeI)
    have d: "list_all2 R (drop ?h a) (drop ?h ss)" using all by (rule list_all2_dropI)
    have "R (pairwise_sum (take ?h a)) (sum_list (take ?h ss))" using c t by (rule "1.IH"(1))
    moreover have "R (pairwise_sum (drop ?h a)) (sum_list (drop ?h ss))" using c d by (rule "1.IH"(2))
    ultimately have "R (fadd (pairwise_sum (take ?h a)) (pairwise_sum (drop ?h a)))
        (sum_list (take ?h ss) + sum_list (drop ?h ss))" by (rule add)
    then show ?thesis using c by (subst pairwise_sum.simps) (simp add: split)
  qed
qed

lemma np_sum_invariant:
  fixes R :: "float64 \<Rightarrow> 'b::comm_monoid_add \<Rightarrow> bool"
  assumes zero: "R (Finite 0) 0"
    and add: "\<And>a b s t. R a s \<Longrightarrow> R b t \<Longrightarrow> R (fadd a b) (s + t)"
    and all: "list_all2 R a ss"
  shows "R (np_sum a) (sum_list ss)"
proof -
  have "R (pairwise_sum a) (sum_list ss)" using zero add all by (rule pairwise_sum_invariant)
  with zero have "R (fadd (Finite 0) (pairwise_sum a)) (0 + sum_list ss)" by (rule add)
  then show ?thesis by (simp add: np_sum_def)
qed

lemma np_sum_short: "length a < 8 \<Longrightarrow> np_sum a = fadd (Finite 0) (foldl fadd (Finite 0) a)"
  by (simp add: np_sum_def pairwise_sum.simps)

lemma np_sum_exact:
  assumes "sum_list ns < 2 ^ 53"
  shows "np_sum (map (\<lambda>n. Finite (of_nat n)) ns) = Finite (of_nat (sum_list ns))"
proof -
  let ?R = "\<lambda>v (s :: nat). s < 2 ^ 53 \<longrightarrow> v = Finite (of_nat s)"
  have "?R (np_sum (map (\<lambda>n. Finite (of_nat n)) ns)) (sum_list ns)"
  proof (rule np_sum_invariant [where R = ?R])
    show "?R (Finite 0) 0" by simp
  next
    fix a b and s t :: nat
    assume a: "?R a s" and b: "?R b t"
    show "?R (fadd a b) (s + t)"
    proof
      assume st: "s + t < 2 ^ 53"
      then have "a = Finite (of_nat s)" "b = Finite (of_nat t)" using a b by simp_all
      then have "fadd a b = round64 (of_nat (s + t))" by simp
      also have "\<dots> = Finite (of_nat (s + t))" using st by (rule round64_of_nat)
      finally show "fadd a b = Finite (of_nat (s + t))" .
    qed
  next
    show "list_all2 ?R (map (\<lambda>n. Finite (of_nat n)) ns) ns"
      by (simp add: list_all2_conv_all_nth)
  qed
  with assms show ?thesis by simp
qed


lemma fdiv_zero_finite: "fdiv (Finite 0) v = Finite p \<Longrightarrow> p = 0"
  by (cases v) (auto split: if_splits)

section \<open>Grouping: \<open>np.split\<close> at the \<open>np.unique\<close> indexes cuts the runs of equal type\<close>

lemma np_split_from_shift:
  "np_split_from (n + s) xs (map ((+) n) idxs) = np_split_from s (drop n xs) idxs"
  by (induction idxs arbitrary: s) (simp_all add: add.commute)

lemma after_run_greater:
  assumes "sorted (map f (y # ys))" and "z \<in> set (dropWhile (\<lambda>z. f z = f y) ys)"
  shows "f y < f z"
proof -
  let ?P = "\<lambda>z. f z = f y"
  let ?rem = "dropWhile ?P ys"
  from assms(2) have ne: "?rem \<noteq> []" by (metis empty_iff empty_set)
  then have hd: "\<not> ?P (hd ?rem)" by (rule hd_dropWhile)
  have zin: "z \<in> set ys" using assms(2) by (rule set_dropWhileD)
  have hin: "hd ?rem \<in> set ys" using ne by (meson hd_in_set set_dropWhileD)
  have "f y \<le> f (hd ?rem)" using assms(1) hin by auto
  with hd have lt: "f y < f (hd ?rem)" by auto
  have "sorted (map f (takeWhile ?P ys @ ?rem))" using assms(1) by simp
  then have "sorted (map f ?rem)" by (simp add: sorted_append del: takeWhile_dropWhile_id)
  then have "f (hd ?rem) \<le> f z" using assms(2) ne
    by (cases ?rem) auto
  with lt show ?thesis by simp
qed

lemma sort_remdups_run:
  assumes "sorted (map f (y # ys))"
  shows "sort (remdups (map f (y # ys))) = f y # sort (remdups (map f (dropWhile (\<lambda>z. f z = f y) ys)))"
proof (rule sorted_distinct_set_unique)
  let ?P = "\<lambda>z. f z = f y"
  let ?rem = "dropWhile ?P ys"
  have gt: "\<forall>z \<in> set ?rem. f y < f z" using after_run_greater [OF assms] by blast
  show "sorted (sort (remdups (map f (y # ys))))" by (rule sorted_sort)
  show "distinct (sort (remdups (map f (y # ys))))" by (simp only: distinct_sort distinct_remdups)
  have "\<forall>v \<in> set (sort (remdups (map f ?rem))). f y < v" using gt by auto
  then show "sorted (f y # sort (remdups (map f ?rem)))"
    by (simp only: sorted_simps sorted_sort) (auto intro: less_imp_le)
  have "f y \<notin> set (sort (remdups (map f ?rem)))" using gt by auto
  then show "distinct (f y # sort (remdups (map f ?rem)))"
    by (simp only: distinct.simps distinct_sort distinct_remdups) simp
  have "set ys = set (takeWhile ?P ys @ ?rem)" by (simp only: takeWhile_dropWhile_id)
  then have "f ` set ys = f ` set (takeWhile ?P ys) \<union> f ` set ?rem"
    by (simp only: set_append image_Un)
  moreover have "f ` set (takeWhile ?P ys) \<subseteq> {f y}" by (auto dest: set_takeWhileD)
  ultimately have "insert (f y) (f ` set ys) = insert (f y) (f ` set ?rem)" by blast
  then show "set (sort (remdups (map f (y # ys)))) = set (f y # sort (remdups (map f ?rem)))"
    by (simp only: set_sort set_remdups set_map list.set(2) image_insert)
qed

lemma first_index_after_run:
  assumes "f y \<noteq> v"
  shows "first_index (map f (y # ys)) v =
         Suc (length (takeWhile (\<lambda>z. f z = f y) ys)) + first_index (map f (dropWhile (\<lambda>z. f z = f y) ys)) v"
proof -
  let ?P = "\<lambda>z. f z = f y"
  let ?Q = "\<lambda>x. x \<noteq> v"
  have e: "map f ys = map f (takeWhile ?P ys) @ map f (dropWhile ?P ys)"
    by (simp only: map_append [symmetric] takeWhile_dropWhile_id)
  have q: "\<And>x. x \<in> set (map f (takeWhile ?P ys)) \<Longrightarrow> ?Q x"
    using assms by (auto dest: set_takeWhileD)
  have "takeWhile ?Q (map f ys) = takeWhile ?Q (map f (takeWhile ?P ys) @ map f (dropWhile ?P ys))"
    using e by (rule arg_cong)
  also have "\<dots> = map f (takeWhile ?P ys) @ takeWhile ?Q (map f (dropWhile ?P ys))"
    using q by (rule takeWhile_append2)
  finally have "length (takeWhile ?Q (map f ys)) =
      length (takeWhile ?P ys) + length (takeWhile ?Q (map f (dropWhile ?P ys)))"
    by (simp only: length_append length_map)
  then show ?thesis using assms by (simp add: first_index_def)
qed

lemma unique_index_run:
  assumes "sorted (map f (y # ys))"
  shows "unique_index (map f (y # ys)) =
         0 # map ((+) (Suc (length (takeWhile (\<lambda>z. f z = f y) ys))))
               (unique_index (map f (dropWhile (\<lambda>z. f z = f y) ys)))"
proof -
  let ?rem = "dropWhile (\<lambda>z. f z = f y) ys"
  have gt: "\<forall>z \<in> set ?rem. f y < f z" using after_run_greater [OF assms] by blast
  have "\<forall>v \<in> set (sort (remdups (map f ?rem))). f y \<noteq> v" using gt by auto
  then have "map (first_index (map f (y # ys))) (sort (remdups (map f ?rem))) =
     map (\<lambda>v. Suc (length (takeWhile (\<lambda>z. f z = f y) ys)) + first_index (map f ?rem) v)
       (sort (remdups (map f ?rem)))"
    by (intro map_cong refl first_index_after_run) auto
  moreover have "first_index (map f (y # ys)) (f y) = 0" by (simp add: first_index_def)
  ultimately show ?thesis
    unfolding unique_index_def sort_remdups_run [OF assms] by (simp add: comp_def)
qed

lemma run_all_if_rest_Nil: "dropWhile P ys = [] \<Longrightarrow> takeWhile P ys = ys"
  using takeWhile_dropWhile_id [of P ys] by (simp del: takeWhile_dropWhile_id)

lemma take_run: "take (Suc (length (takeWhile P ys))) (map h (y # ys)) = map h (y # takeWhile P ys)"
proof -
  have "take (length (takeWhile P ys)) (map h (takeWhile P ys @ dropWhile P ys)) = map h (takeWhile P ys)"
    by (simp only: map_append) simp
  then show ?thesis by simp
qed

lemma drop_run: "drop (Suc (length (takeWhile P ys))) (map h (y # ys)) = map h (dropWhile P ys)"
proof -
  have "drop (length (takeWhile P ys)) (map h (takeWhile P ys @ dropWhile P ys)) = map h (dropWhile P ys)"
    by (simp only: map_append) simp
  then show ?thesis by simp
qed

lemma sorted_rest:
  assumes "sorted (map f (y # ys))" shows "sorted (map f (dropWhile P ys))"
proof -
  have "sorted (map f (takeWhile P ys @ dropWhile P ys))" using assms by simp
  then show ?thesis by (simp only: map_append sorted_append)
qed

lemma np_split_unique_index:
  assumes "sorted (map f ys)" and "ys \<noteq> []"
  shows "np_split (map h ys) (tl (unique_index (map f ys))) = map (map h) (group_runs f ys)"
  using assms
proof (induction f ys rule: group_runs.induct)
  case (1 f)
  then show ?case by simp
next
  case (2 f y ys)
  let ?P = "\<lambda>z. f z = f y"
  let ?run = "takeWhile ?P ys"
  let ?rem = "dropWhile ?P ys"
  let ?k = "Suc (length ?run)"
  have ui: "unique_index (map f (y # ys)) = 0 # map ((+) ?k) (unique_index (map f ?rem))"
    using unique_index_run [OF "2.prems"(1)] .
  have tk: "take ?k (map h (y # ys)) = map h (y # ?run)" by (rule take_run)
  have dr: "drop ?k (map h (y # ys)) = map h ?rem" by (rule drop_run)
  show ?case
  proof (cases "?rem = []")
    case True
    have e: "unique_index (map f ?rem) = []" by (simp only: True) (simp add: unique_index_def)
    have r: "?run = ys" using True by (rule run_all_if_rest_Nil)
    have g: "group_runs f ?rem = []" by (simp only: True) simp
    have "np_split (map h (y # ys)) (tl (unique_index (map f (y # ys)))) = [map h (y # ys)]"
      unfolding ui e by (simp add: np_split_def)
    moreover have "map (map h) (group_runs f (y # ys)) = [map h (y # ys)]"
      by (simp only: group_runs.simps g r) simp
    ultimately show ?thesis by (rule trans [OF _ sym])
  next
    case False
    then obtain y' ys' where rem: "?rem = y' # ys'" by (cases ?rem) blast+
    have srem: "sorted (map f ?rem)" using "2.prems"(1) by (rule sorted_rest)
    have "unique_index (map f ?rem) = 0 # tl (unique_index (map f ?rem))"
      using unique_index_run [of f y' ys'] srem unfolding rem by simp
    then obtain t where t: "unique_index (map f ?rem) = 0 # t" "t = tl (unique_index (map f ?rem))"
      by blast
    have IH: "np_split (map h ?rem) t = map (map h) (group_runs f ?rem)"
      using "2.IH" [OF srem False] t(2) by (simp only:)
    have "np_split (map h (y # ys)) (tl (unique_index (map f (y # ys)))) =
          take ?k (map h (y # ys)) # np_split_from ?k (map h (y # ys)) (map ((+) ?k) t)"
      unfolding ui t(1) by (simp add: np_split_def)
    also have "np_split_from ?k (map h (y # ys)) (map ((+) ?k) t) = np_split_from 0 (drop ?k (map h (y # ys))) t"
      using np_split_from_shift [of ?k 0] by (simp only: add_0_right)
    finally have "np_split (map h (y # ys)) (tl (unique_index (map f (y # ys)))) =
          map h (y # ?run) # map (map h) (group_runs f ?rem)"
      using IH unfolding tk dr np_split_def by (simp only:)
    then show ?thesis by (simp only: group_runs.simps list.map)
  qed
qed

lemma group_runs_concat: "concat (group_runs f ys) = ys"
  by (induction f ys rule: group_runs.induct) simp_all

lemma group_runs_nonempty: "g \<in> set (group_runs f ys) \<Longrightarrow> g \<noteq> []"
  by (induction f ys rule: group_runs.induct) auto

lemma group_runs_subset: "g \<in> set (group_runs f ys) \<Longrightarrow> set g \<subseteq> set ys"
  by (induction f ys rule: group_runs.induct) (auto dest: set_takeWhileD set_dropWhileD)

lemma group_runs_filter:
  assumes "sorted (map f ys)" and "g \<in> set (group_runs f ys)"
  shows "g = filter (\<lambda>z. f z = f (hd g)) ys"
  using assms
proof (induction f ys rule: group_runs.induct)
  case (1 f)
  then show ?case by simp
next
  case (2 f y ys)
  let ?P = "\<lambda>z. f z = f y"
  let ?run = "takeWhile ?P ys"
  let ?rem = "dropWhile ?P ys"
  have gt: "\<forall>z \<in> set ?rem. f y < f z" using after_run_greater [OF "2.prems"(1)] by blast
  have runP: "\<forall>z \<in> set ?run. f z = f y" by (auto dest: set_takeWhileD)
  from "2.prems"(2) consider "g = y # ?run" | "g \<in> set (group_runs f ?rem)" by auto
  then show ?case
  proof cases
    case 1
    have "\<forall>z \<in> set ?rem. \<not> ?P z" using gt by force
    then have "filter ?P ?rem = []" by (simp only: filter_empty_conv)
    moreover have "filter ?P ?run = ?run" unfolding filter_id_conv using runP by blast
    ultimately have "filter ?P (?run @ ?rem) = ?run" by (simp only: filter_append) simp
    then have "filter ?P ys = ?run" by simp
    then have "filter ?P (y # ys) = y # ?run" by simp
    then show ?thesis unfolding 1 by simp
  next
    case 2
    have srem: "sorted (map f ?rem)" using "2.prems"(1) by (rule sorted_rest)
    have IH: "filter (\<lambda>z. f z = f (hd g)) ?rem = g" using "2.IH" [OF srem 2] by (rule sym)
    have "g \<noteq> []" using 2 by (rule group_runs_nonempty)
    then have "hd g \<in> set ?rem" using group_runs_subset [OF 2] by (cases g) auto
    then have lt: "f y < f (hd g)" using gt by blast
    have ne: "f y \<noteq> f (hd g)" using lt by simp
    have "\<forall>z \<in> set ?run. f z \<noteq> f (hd g)"
    proof
      fix z assume "z \<in> set ?run"
      with runP have "f z = f y" by blast
      with ne show "f z \<noteq> f (hd g)" by simp
    qed
    then have "filter (\<lambda>z. f z = f (hd g)) ?run = []" by (simp only: filter_empty_conv)
    then have "filter (\<lambda>z. f z = f (hd g)) (?run @ ?rem) = g"
      using IH by (simp only: filter_append) simp
    then have "filter (\<lambda>z. f z = f (hd g)) ys = g" by simp
    with ne have "filter (\<lambda>z. f z = f (hd g)) (y # ys) = g" by simp
    then show ?thesis by (rule sym)
  qed
qed

lemma type_column: "set idxs \<subseteq> {0..<length traits} \<Longrightarrow>
    map ((!) (map trait_type traits)) idxs = map (type_at traits) idxs"
  by (rule map_cong [OF refl]) auto

lemma sorted_indexes_result: "argsort_result (map trait_type traits) (sorted_indexes argsort traits)"
proof -
  let ?types = "map trait_type traits"
  let ?stable = "sort_key (type_at traits) [0..<length traits]"
  have "sorted (map (type_at traits) ?stable)" by (rule sorted_sort_key)
  moreover have "map ((!) ?types) ?stable = map (type_at traits) ?stable"
    by (rule type_column) simp
  ultimately have "sorted (map ((!) ?types) ?stable)" by (simp only:)
  then have "argsort_result ?types ?stable"
    unfolding argsort_result_def by (simp only: distinct_sort set_sort) simp
  then show ?thesis by (simp add: sorted_indexes_def Let_def)
qed

lemma sorted_indexes_set: "set (sorted_indexes argsort traits) = {0..<length traits}"
  using sorted_indexes_result [of traits argsort] by (simp add: argsort_result_def)

lemma sorted_indexes_distinct: "distinct (sorted_indexes argsort traits)"
  using sorted_indexes_result [of traits argsort] by (simp add: argsort_result_def)

lemma sorted_indexes_sorted: "sorted (map (type_at traits) (sorted_indexes argsort traits))"
proof -
  have e: "map ((!) (map trait_type traits)) (sorted_indexes argsort traits) =
        map (type_at traits) (sorted_indexes argsort traits)"
    by (rule type_column) (simp add: sorted_indexes_set)
  have "sorted (map ((!) (map trait_type traits)) (sorted_indexes argsort traits))"
    using sorted_indexes_result [of traits argsort] by (simp add: argsort_result_def)
  then show ?thesis by (simp only: e)
qed

lemma sorted_indexes_stable:
  "length traits \<le> 16 \<Longrightarrow>
   sorted_indexes argsort traits = sort_key (type_at traits) [0..<length traits]"
  by (simp add: sorted_indexes_def)

lemma zip_map_same: "zip xs (map f xs) = map (\<lambda>x. (x, f x)) xs"
  by (induction xs) simp_all

lemma indexed_groups_Inr:
  assumes "indexed_rarity_weight_groups argsort traits = Inr wgs"
  shows "wgs = np_split (map (weight_at traits) (sorted_indexes argsort traits))
                 (tl (unique_index (map (type_at traits) (sorted_indexes argsort traits))))"
  using assms
  by (simp add: indexed_rarity_weight_groups_def astype_float64_def Let_def zip_map_same comp_def
      split: if_splits)

lemma indexed_groups_in_range:
  assumes "list_all (\<lambda>t. is_finite (round64 (of_int (rarity_weight t)))) traits"
  shows "\<exists>wgs. indexed_rarity_weight_groups argsort traits = Inr wgs"
proof -
  have "list_all (\<lambda>z. is_finite (round64 (of_int z)))
          (map (\<lambda>i. rarity_weight (traits ! i)) (sorted_indexes argsort traits))"
    using assms by (simp add: list_all_iff sorted_indexes_set)
  then show ?thesis by (simp add: indexed_rarity_weight_groups_def astype_float64_def Let_def)
qed

lemma groups_eq_runs:
  assumes "traits \<noteq> []" and "indexed_rarity_weight_groups argsort traits = Inr wgs"
  shows "wgs = map (map (weight_at traits)) (group_runs (type_at traits) (sorted_indexes argsort traits))"
proof -
  have s: "sorted (map (type_at traits) (sorted_indexes argsort traits))" by (rule sorted_indexes_sorted)
  have "set (sorted_indexes argsort traits) \<noteq> {}" using assms(1) by (simp add: sorted_indexes_set)
  then have ne: "sorted_indexes argsort traits \<noteq> []" by auto
  show ?thesis
    unfolding indexed_groups_Inr [OF assms(2)] by (rule np_split_unique_index [OF s ne])
qed

lemma run_of_sorted_indexes:
  assumes "g \<in> set (group_runs (type_at traits) (sorted_indexes argsort traits))"
  shows "\<exists>c. g \<noteq> [] \<and> distinct g \<and> set g = {i. i < length traits \<and> type_at traits i = c}"
proof -
  let ?c = "type_at traits (hd g)"
  have s: "sorted (map (type_at traits) (sorted_indexes argsort traits))" by (rule sorted_indexes_sorted)
  have e: "g = filter (\<lambda>i. type_at traits i = ?c) (sorted_indexes argsort traits)"
    using group_runs_filter [OF s assms] .
  have "distinct (filter (\<lambda>i. type_at traits i = ?c) (sorted_indexes argsort traits))"
    by (simp add: sorted_indexes_distinct)
  then have d: "distinct g" by (simp only: e [symmetric])
  have "set (filter (\<lambda>i. type_at traits i = ?c) (sorted_indexes argsort traits)) =
        {i. i < length traits \<and> type_at traits i = ?c}"
    by (auto simp: sorted_indexes_set)
  then have "set g = {i. i < length traits \<and> type_at traits i = ?c}" by (simp only: e [symmetric])
  with d group_runs_nonempty [OF assms] show ?thesis by blast
qed

lemma filter_by_index: "map ((!) xs) (filter (\<lambda>i. P (xs ! i)) [0..<length xs]) = filter P xs"
proof -
  have "filter P xs = filter P (map ((!) xs) [0..<length xs])" by (simp only: map_nth)
  also have "\<dots> = map ((!) xs) (filter (P \<circ> (!) xs) [0..<length xs])" by (rule filter_map)
  finally show ?thesis by (simp add: comp_def)
qed

lemma sum_over_type:
  fixes h :: "'img trait \<Rightarrow> 'b::comm_monoid_add"
  assumes "distinct g" and "set g = {i. i < length traits \<and> trait_type (traits ! i) = c}"
  shows "sum_list (map (\<lambda>i. h (traits ! i)) g) = sum_list (map h (filter (\<lambda>t. trait_type t = c) traits))"
proof -
  let ?f = "filter (\<lambda>i. trait_type (traits ! i) = c) [0..<length traits]"
  have sf: "set ?f = set g" using assms(2) by auto
  have "sum_list (map (\<lambda>i. h (traits ! i)) g) = sum (\<lambda>i. h (traits ! i)) (set g)"
    using assms(1) by (rule sum_list_distinct_conv_sum_set)
  also have "\<dots> = sum (\<lambda>i. h (traits ! i)) (set ?f)" by (simp only: sf)
  also have "\<dots> = sum_list (map (\<lambda>i. h (traits ! i)) ?f)"
    by (rule sum_list_distinct_conv_sum_set [symmetric]) simp
  also have "map (\<lambda>i. h (traits ! i)) ?f = map h (map ((!) traits) ?f)" by simp
  also have "map ((!) traits) ?f = filter (\<lambda>t. trait_type t = c) traits" by (rule filter_by_index)
  finally show ?thesis .
qed

lemma group_members:
  assumes "traits \<noteq> []" and "indexed_rarity_weight_groups argsort traits = Inr wgs" and "wm \<in> set wgs"
  shows "\<exists>c g. g \<noteq> [] \<and> distinct g \<and> set g = {i. i < length traits \<and> trait_type (traits ! i) = c} \<and>
           wm = map (weight_at traits) g"
proof -
  from assms(3) obtain g where g: "g \<in> set (group_runs (type_at traits) (sorted_indexes argsort traits))"
    and wm: "wm = map (weight_at traits) g"
    unfolding groups_eq_runs [OF assms(1,2)] by auto
  from run_of_sorted_indexes [OF g] wm show ?thesis by blast
qed

section \<open>One draw\<close>

lemma next_double_range:
  assumes "next_double nx g = (u, g')"
  shows "0 \<le> u \<and> u < 1 \<and> g' = snd (nx g)"
proof -
  obtain w where w: "nx g = (w, g')" and u0: "u = of_nat (unat (drop_bit 11 w)) / 2 ^ 53"
    using assms by (auto simp: next_double_def split: prod.splits)
  define n where "n = unat (drop_bit 11 w)"
  have u: "u = of_nat n / 2 ^ 53" unfolding n_def by (rule u0)
  have "unat w < 2 ^ 64" using unsigned_less [of w, where 'a = nat] by simp
  then have "unat w div 2 ^ 11 < 2 ^ 53" by (simp add: less_mult_imp_div_less)
  moreover have "unat (drop_bit 11 w) = unat w div 2 ^ 11"
    by (simp only: unat_drop_bit_eq) (simp only: drop_bit_eq_div)
  ultimately have "n < 2 ^ 53" unfolding n_def by (simp only:)
  then have "(of_nat n :: rat) < of_nat (2 ^ 53)" by (simp only: of_nat_less_iff)
  then have "(of_nat n :: rat) < 2 ^ 53" by simp
  then have "u < 1" unfolding u by simp
  moreover have "0 \<le> u" unfolding u by simp
  ultimately show ?thesis using w by simp
qed

lemma length_cumsum_from: "length (cumsum_from acc xs) = length xs"
  by (induction xs arbitrary: acc) simp_all

lemma cumsum_from_nth:
  "i < length xs \<Longrightarrow> cumsum_from acc xs ! i = acc + sum_list (take (Suc i) xs)"
proof (induction xs arbitrary: acc i)
  case Nil
  then show ?case by simp
next
  case (Cons x xs)
  then show ?case by (cases i) (simp_all add: add.assoc)
qed

lemma last_cumsum: "xs \<noteq> [] \<Longrightarrow> last (cumsum xs) = sum_list xs"
proof -
  assume ne: "xs \<noteq> []"
  then have "cumsum xs \<noteq> []" using length_cumsum_from [of 0 xs] by (auto simp: cumsum_def)
  then have "last (cumsum xs) = cumsum xs ! (length xs - 1)"
    by (simp add: last_conv_nth cumsum_def length_cumsum_from)
  also have "\<dots> = sum_list (take (Suc (length xs - 1)) xs)"
    using ne by (simp add: cumsum_def cumsum_from_nth)
  finally show ?thesis using ne by simp
qed

lemma takeWhile_prefix_P: "j < length (takeWhile P xs) \<Longrightarrow> P (xs ! j)"
proof -
  assume j: "j < length (takeWhile P xs)"
  then have "takeWhile P xs ! j \<in> set (takeWhile P xs)" by (rule nth_mem)
  then have "P (takeWhile P xs ! j)" by (rule set_takeWhileD [THEN conjunct2])
  then show ?thesis using takeWhile_nth [OF j] by simp
qed

lemma searchsorted_pick:
  assumes ne: "ps \<noteq> []" and pos: "0 < sum_list ps" and u: "0 \<le> u" "u < 1"
  defines "cdf \<equiv> map (\<lambda>c. c / last (cumsum ps)) (cumsum ps)"
  shows "searchsorted_right cdf u < length ps \<and> 0 < ps ! searchsorted_right cdf u"
proof -
  let ?S = "sum_list ps"
  let ?P = "\<lambda>c. c \<le> u"
  let ?k = "length (takeWhile ?P cdf)"
  have len: "length cdf = length ps" by (simp add: cdf_def cumsum_def length_cumsum_from)
  have nth: "cdf ! i = sum_list (take (Suc i) ps) / ?S" if "i < length ps" for i
  proof -
    have "cdf ! i = cumsum ps ! i / last (cumsum ps)"
      using that unfolding cdf_def by (simp add: cumsum_def length_cumsum_from)
    also have "last (cumsum ps) = ?S" using ne by (rule last_cumsum)
    also have "cumsum ps ! i = sum_list (take (Suc i) ps)"
      using that by (simp add: cumsum_def cumsum_from_nth)
    finally show ?thesis .
  qed
  have lastn: "length ps - 1 < length cdf" using ne len by simp
  have "cdf ! (length ps - 1) = ?S / ?S" using ne nth [of "length ps - 1"] by simp
  then have "\<not> ?P (cdf ! (length ps - 1))" using pos u by simp
  then have "\<not> length ps - 1 < ?k" using takeWhile_prefix_P [of "length ps - 1" ?P cdf] by blast
  then have "?k \<le> length ps - 1" by simp
  then have k: "?k < length ps" using ne by (cases ps) auto
  then have "\<not> ?P (cdf ! ?k)" using len by (intro nth_length_takeWhile) simp
  then have hi: "u < sum_list (take (Suc ?k) ps) / ?S" using nth [OF k] by simp
  have lo: "sum_list (take ?k ps) / ?S \<le> u"
  proof (cases ?k)
    case 0
    then show ?thesis using u by simp
  next
    case (Suc j)
    then have j: "j < ?k" by simp
    then have "?P (cdf ! j)" by (rule takeWhile_prefix_P)
    moreover have "j < length ps" using j k by simp
    ultimately show ?thesis using nth [of j] Suc by simp
  qed
  have "sum_list (take (Suc ?k) ps) = sum_list (take ?k ps) + ps ! ?k"
    using k by (simp add: take_Suc_conv_app_nth)
  with lo hi have "sum_list (take ?k ps) / ?S < (sum_list (take ?k ps) + ps ! ?k) / ?S" by simp
  then have "0 < ps ! ?k" using pos by (simp add: divide_less_cancel)
  with k show ?thesis by (simp add: searchsorted_right_def)
qed

lemma finite_values_Some: "finite_values p = Some ps \<Longrightarrow> p = map Finite ps"
proof (induction p arbitrary: ps)
  case Nil
  then show ?case by simp
next
  case (Cons x p)
  then show ?case by (cases x) auto
qed


lemma atol_bounds: "0 < atol" "atol < 1"
  by (simp_all add: atol_def)

lemma choice_valid:
  assumes "valid_probabilities grp"
  shows "\<exists>i w. i < length grp \<and> grp ! i = (fst (grp ! i), Finite w) \<and> 0 < w \<and>
           choice nx (map fst grp) (map snd grp) g = Inr (fst (grp ! i), snd (nx g))"
proof -
  from assms obtain ps where ne: "grp \<noteq> []" and fv: "finite_values (map snd grp) = Some ps"
    and nonneg: "\<not> list_ex (\<lambda>x. x < 0) ps" and sum1: "\<not> atol < \<bar>sum_list ps - 1\<bar>"
    by (auto simp: valid_probabilities_def split: option.splits)
  have p: "map snd grp = map Finite ps" using fv by (rule finite_values_Some)
  then have len: "length ps = length grp" by (metis length_map)
  then have psne: "ps \<noteq> []" using ne by auto
  have pos: "0 < sum_list ps" using sum1 atol_bounds by (simp add: abs_if split: if_splits)
  obtain u g' where nd: "next_double nx g = (u, g')" by (cases "next_double nx g")
  from next_double_range [OF nd] have u: "0 \<le> u" "u < 1" and g': "g' = snd (nx g)" by simp_all
  define idx where "idx = searchsorted_right (map (\<lambda>c. c / last (cumsum ps)) (cumsum ps)) u"
  from searchsorted_pick [OF psne pos u] have idx: "idx < length ps" "0 < ps ! idx"
    unfolding idx_def by simp_all
  have "snd (grp ! idx) = Finite (ps ! idx)"
    using idx(1) len nth_map [of idx grp snd] nth_map [of idx ps Finite] p by simp
  then have e: "grp ! idx = (fst (grp ! idx), Finite (ps ! idx))" by (cases "grp ! idx") simp
  have "choice nx (map fst grp) (map snd grp) g = Inr (fst (grp ! idx), snd (nx g))"
    using ne fv nonneg sum1 len nd idx(1) g'
    by (simp add: choice_def Let_def idx_def [symmetric])
  with idx e show ?thesis using len by (metis (no_types))
qed

lemma choice_invalid:
  assumes "\<not> valid_probabilities grp"
  shows "choice nx (map fst grp) (map snd grp) g = Inl ValueError"
  using assms
  by (auto simp: valid_probabilities_def choice_def split: option.splits)

lemma drawn_fromI: "k < length grp \<Longrightarrow> grp ! k = (i, Finite w) \<Longrightarrow> 0 < w \<Longrightarrow> drawn_from i grp"
proof -
  assume k: "k < length grp" and e: "grp ! k = (i, Finite w)" and w: "0 < w"
  from k have "grp ! k \<in> set grp" by (rule nth_mem)
  then have "(i, Finite w) \<in> set grp" by (simp only: e)
  then show ?thesis unfolding drawn_from_def list_ex_iff using w by force
qed

lemma choices_valid:
  assumes "list_all valid_probabilities groups"
  shows "\<exists>idxs g'. choices nx groups g = Inr (idxs, g') \<and> list_all2 drawn_from idxs groups"
  using assms
proof (induction groups arbitrary: g)
  case Nil
  then show ?case by simp
next
  case (Cons grp groups)
  from Cons.prems have v: "valid_probabilities grp" and vs: "list_all valid_probabilities groups"
    by simp_all
  from choice_valid [OF v, of nx g] obtain k w where k: "k < length grp"
    and e: "grp ! k = (fst (grp ! k), Finite w)" and w: "0 < w"
    and c: "choice nx (map fst grp) (map snd grp) g = Inr (fst (grp ! k), snd (nx g))" by blast
  from Cons.IH [OF vs, of "snd (nx g)"] obtain idxs g' where
    r: "choices nx groups (snd (nx g)) = Inr (idxs, g')" and l: "list_all2 drawn_from idxs groups" by blast
  have "drawn_from (fst (grp ! k)) grp" using k e w by (rule drawn_fromI)
  with l have "list_all2 drawn_from (fst (grp ! k) # idxs) (grp # groups)" by simp
  moreover have "choices nx (grp # groups) g = Inr (fst (grp ! k) # idxs, g')" using c r by simp
  ultimately show ?case by blast
qed

lemma choices_invalid:
  assumes "\<not> list_all valid_probabilities groups"
  shows "choices nx groups g = Inl ValueError"
  using assms
proof (induction groups arbitrary: g)
  case Nil
  then show ?case by simp
next
  case (Cons grp groups)
  show ?case
  proof (cases "valid_probabilities grp")
    case False
    then show ?thesis using choice_invalid [of grp nx g] by simp
  next
    case True
    with Cons.prems have "\<not> list_all valid_probabilities groups" by simp
    then have r: "choices nx groups (snd (nx g)) = Inl ValueError" by (rule Cons.IH)
    from choice_valid [OF True, of nx g] obtain k where
      "choice nx (map fst grp) (map snd grp) g = Inr (fst (grp ! k), snd (nx g))" by blast
    with r show ?thesis by simp
  qed
qed


section \<open>The sampling loop\<close>

lemma generate_loop_result:
  assumes run: "generate_loop (nx :: 'g \<Rightarrow> 64 word \<times> 'g) (traits :: 'img trait list) groups amount seen td g =
      Some (Inr (td', g'))"
    and draws: "\<And>g rows g1. get_random_traits nx traits groups g = Inr (rows, g1) \<Longrightarrow> Q rows"
  shows "\<exists>new. td' = td @ new \<and> list_all Q new \<and> distinct (map (map trait_name) new) \<and>
           (\<forall>r \<in> set new. map trait_name r \<notin> seen) \<and> amount \<le> length td' \<and>
           (length td \<le> amount \<longrightarrow> length td' = amount)"
proof -
  let ?R = "\<lambda>amount seen td td'. \<exists>new. td' = td @ new \<and> list_all Q new \<and>
           distinct (map (map trait_name) new) \<and>
           (\<forall>r \<in> set new. map trait_name r \<notin> seen) \<and> amount \<le> length td' \<and>
           (length td \<le> amount \<longrightarrow> length td' = amount)"
  let ?P = "\<lambda>nx traits groups amount seen td (g::'g) (y :: error + ('img trait list list \<times> 'g)).
        (\<forall>g rows g1. get_random_traits nx traits groups g = Inr (rows, g1) \<longrightarrow> Q rows) \<longrightarrow>
        (\<forall>td' g'. y = Inr (td', g') \<longrightarrow> ?R amount seen td td')"
  have "?P nx traits groups amount seen td g (Inr (td', g'))"
  proof (rule generate_loop.raw_induct [where P = ?P, OF _ run], goal_cases)
    case (1 loop nx traits groups amount seen td g y)
    note IH = "1"(1) and hyps = "1"(2)
    show ?case
    proof (intro impI allI)
      fix td' g'
      assume dr: "\<forall>g rows g1. get_random_traits nx traits groups g = Inr (rows, g1) \<longrightarrow> Q rows"
        and y: "y = Inr (td', g')"
      show "?R amount seen td td'"
      proof (cases "length td < amount")
        case False
        with hyps y have "td' = td" by simp
        with False show ?thesis by (intro exI [of _ "[]"]) simp
      next
        case True
        show ?thesis
        proof (cases "get_random_traits nx traits groups g")
          case (Inl e)
          with hyps True y show ?thesis by simp
        next
          case (Inr p)
          obtain rows g1 where p: "p = (rows, g1)" by (cases p)
          have q: "Q rows" using dr Inr p by blast
          show ?thesis
          proof (cases "map trait_name rows \<in> seen")
            case True
            with hyps \<open>length td < amount\<close> Inr p y
            have "loop nx traits groups amount seen td g1 = Some (Inr (td', g'))" by simp
            from IH [OF this] dr show ?thesis by blast
          next
            case False
            with hyps \<open>length td < amount\<close> Inr p y
            have "loop nx traits groups amount (insert (map trait_name rows) seen) (td @ [rows]) g1 =
                  Some (Inr (td', g'))" by simp
            from IH [OF this] dr obtain new where
              n: "td' = (td @ [rows]) @ new" "list_all Q new" "distinct (map (map trait_name) new)"
                 "\<forall>r \<in> set new. map trait_name r \<notin> insert (map trait_name rows) seen"
                 "amount \<le> length td'"
                 "length (td @ [rows]) \<le> amount \<longrightarrow> length td' = amount"
              by blast
            have "td' = td @ (rows # new)" using n(1) by simp
            moreover have "list_all Q (rows # new)" using q n(2) by simp
            moreover have "distinct (map (map trait_name) (rows # new))" using n(3,4) by auto
            moreover have "\<forall>r \<in> set (rows # new). map trait_name r \<notin> seen" using False n(4) by auto
            moreover have "length td \<le> amount \<longrightarrow> length td' = amount"
              using n(6) \<open>length td < amount\<close> by simp
            ultimately show ?thesis using n(5) by blast
          qed
        qed
      qed
    qed
  qed
  with draws show ?thesis by blast
qed

lemma generate_loop_error:
  assumes "generate_loop (nx :: 'g \<Rightarrow> 64 word \<times> 'g) (traits :: 'img trait list) groups amount seen td g =
      Some (Inl e)"
  shows "\<exists>g1. get_random_traits nx traits groups g1 = Inl e"
proof -
  let ?P = "\<lambda>nx traits groups (amount::nat) (seen::string option list set) (td::'img trait list list) (g::'g) (y :: error + ('img trait list list \<times> 'g)).
        y = Inl e \<longrightarrow> (\<exists>g1. get_random_traits nx traits groups g1 = Inl e)"
  have "?P nx traits groups amount seen td g (Inl e)"
  proof (rule generate_loop.raw_induct [where P = ?P, OF _ assms], goal_cases)
    case (1 loop nx traits groups amount seen td g y)
    note IH = "1"(1) and hyps = "1"(2)
    show ?case
    proof
      assume y: "y = Inl e"
      show "\<exists>g1. get_random_traits nx traits groups g1 = Inl e"
      proof (cases "length td < amount")
        case False
        with hyps y show ?thesis by simp
      next
        case True
        show ?thesis
        proof (cases "get_random_traits nx traits groups g")
          case (Inl e')
          with hyps True y have "e' = e" by simp
          with Inl show ?thesis by blast
        next
          case (Inr p)
          obtain rows g1 where p: "p = (rows, g1)" by (cases p)
          show ?thesis
          proof (cases "map trait_name rows \<in> seen")
            case True
            with hyps \<open>length td < amount\<close> Inr p y
            have "loop nx traits groups amount seen td g1 = Some (Inl e)" by simp
            from IH [OF this] show ?thesis by blast
          next
            case False
            with hyps \<open>length td < amount\<close> Inr p y
            have "loop nx traits groups amount (insert (map trait_name rows) seen) (td @ [rows]) g1 =
                  Some (Inl e)" by simp
            from IH [OF this] show ?thesis by blast
          qed
        qed
      qed
    qed
  qed
  then show ?thesis by blast
qed

section \<open>The example run\<close>

lemmas normalizer_eval =
  get_normalized_rarity_weight_groups_def indexed_rarity_weight_groups_def sorted_indexes_def
  astype_float64_def is_finite_def unique_index_def first_index_def np_split_def
  normalize_indexed_rarity_weights_def np_sum_short upt_rec


lemma interleaved_doubles:
  "next_double interleaved_bits 0 = (0, 1)"
  "next_double interleaved_bits 1 = (0, 2)"
  "next_double interleaved_bits 2 = (1 / 2, 3)"
  "next_double interleaved_bits 3 = (0, 4)"
  by (simp_all add: next_double_def interleaved_bits_def)

lemma interleaved_draw_0:
  "get_random_traits interleaved_bits interleaved_traits interleaved_groups 0 =
     Inr ([interleaved_traits ! 0, interleaved_traits ! 1], 2)"
  by (simp add: get_random_traits_def interleaved_groups_def choice_def interleaved_doubles cumsum_def
      searchsorted_right_def atol_def interleaved_traits_def)

lemma interleaved_draw_2:
  "get_random_traits interleaved_bits interleaved_traits interleaved_groups 2 =
     Inr ([interleaved_traits ! 1, interleaved_traits ! 2], 4)"
  by (simp add: get_random_traits_def interleaved_groups_def choice_def interleaved_doubles cumsum_def
      searchsorted_right_def atol_def interleaved_traits_def)

lemma interleaved_run:
  "generate_token_data interleaved_bits interleaved_traits interleaved_groups 2 0 = Some (Inr interleaved_items)"
proof -
  have "generate_loop interleaved_bits interleaved_traits interleaved_groups 2 {} [] 0 =
        Some (Inr ([[interleaved_traits ! 0, interleaved_traits ! 1],
                    [interleaved_traits ! 1, interleaved_traits ! 2]], 4))"
    apply (subst generate_loop.simps)
    apply (simp add: interleaved_draw_0)
    apply (subst generate_loop.simps)
    apply (simp add: interleaved_draw_2)
    apply (subst generate_loop.simps)
    apply (simp add: interleaved_traits_def)
    done
  then show ?thesis
    by (simp add: generate_token_data_def interleaved_items_def interleaved_traits_def delete_rarity_weight_def)
qed

section \<open>The normalised groups of a table\<close>

lemma normalizer_Inr:
  assumes "get_normalized_rarity_weight_groups argsort traits = Inr groups"
  shows "traits \<noteq> [] \<and> (\<exists>wgs. indexed_rarity_weight_groups argsort traits = Inr wgs \<and>
           groups = map normalize_indexed_rarity_weights wgs)"
  using assms by (auto simp: get_normalized_rarity_weight_groups_def split: if_splits sum.splits)

lemma group_of_row:
  assumes "i < length traits" and "indexed_rarity_weight_groups argsort traits = Inr wgs"
  shows "\<exists>g. map (weight_at traits) g \<in> set wgs \<and> distinct g \<and> i \<in> set g \<and>
           set g = {j. j < length traits \<and> trait_type (traits ! j) = trait_type (traits ! i)}"
proof -
  from assms(1) have ne: "traits \<noteq> []" by auto
  have "i \<in> set (sorted_indexes argsort traits)" using assms(1) by (simp add: sorted_indexes_set)
  then have "i \<in> set (concat (group_runs (type_at traits) (sorted_indexes argsort traits)))"
    by (simp only: group_runs_concat)
  then obtain g where g: "g \<in> set (group_runs (type_at traits) (sorted_indexes argsort traits))"
    and ig: "i \<in> set g" by auto
  have wm: "map (weight_at traits) g \<in> set wgs"
    unfolding groups_eq_runs [OF ne assms(2)] using g by simp
  from run_of_sorted_indexes [OF g] obtain c where d: "distinct g"
    and s: "set g = {j. j < length traits \<and> trait_type (traits ! j) = c}" by blast
  from ig s have "trait_type (traits ! i) = c" by simp
  with wm d ig s show ?thesis by blast
qed

lemma group_rows:
  assumes "traits \<noteq> []" and "indexed_rarity_weight_groups argsort traits = Inr wgs"
    and "wm \<in> set wgs" and "(i, w) \<in> set wm"
  shows "i < length traits \<and> w = round64 (of_int (rarity_weight (traits ! i)))"
proof -
  from group_members [OF assms(1,2,3)] obtain c g where
    s: "set g = {i. i < length traits \<and> trait_type (traits ! i) = c}"
    and wm: "wm = map (weight_at traits) g" by blast
  from assms(4) have "i \<in> set g" "w = round64 (of_int (rarity_weight (traits ! i)))"
    unfolding wm by auto
  with s show ?thesis by simp
qed

section \<open>Draws from the groups of a table\<close>

lemma drawn_fromD: "drawn_from i grp \<Longrightarrow> \<exists>w. (i, Finite w) \<in> set grp \<and> 0 < w"
proof -
  assume "drawn_from i grp"
  then obtain x where x: "x \<in> set grp"
    and c: "case x of (j, p) \<Rightarrow> j = i \<and> (case p of Finite w \<Rightarrow> 0 < w | _ \<Rightarrow> False)"
    unfolding drawn_from_def list_ex_iff by blast
  obtain j p where jp: "x = (j, p)" by (cases x)
  from c jp obtain w where "j = i" "p = Finite w" "0 < w" by (cases p) simp_all
  with x jp show ?thesis by blast
qed

lemma normalized_entry:
  assumes "(i, p) \<in> set (normalize_indexed_rarity_weights wm)"
  shows "\<exists>w. (i, w) \<in> set wm \<and> p = fdiv w (np_sum (map snd wm))"
  using assms by (auto simp: normalize_indexed_rarity_weights_def Let_def)

lemma table_draw:
  assumes groups: "get_normalized_rarity_weight_groups argsort traits = Inr groups"
    and grp: "grp \<in> set groups" and d: "drawn_from i grp"
  shows "i < length traits \<and> rarity_weight (traits ! i) \<noteq> 0"
proof -
  from normalizer_Inr [OF groups] obtain wgs where ne: "traits \<noteq> []"
    and wgs: "indexed_rarity_weight_groups argsort traits = Inr wgs"
    and g: "groups = map normalize_indexed_rarity_weights wgs" by blast
  from grp obtain wm where wm: "wm \<in> set wgs"
    and e: "grp = normalize_indexed_rarity_weights wm" unfolding g by auto
  from drawn_fromD [OF d] obtain p where p: "(i, Finite p) \<in> set grp" "0 < p" by blast
  from normalized_entry [OF p(1) [unfolded e]] obtain w where
    w: "(i, w) \<in> set wm" "Finite p = fdiv w (np_sum (map snd wm))" by blast
  from group_rows [OF ne wgs wm w(1)] have i: "i < length traits"
    "w = round64 (of_int (rarity_weight (traits ! i)))" by simp_all
  have "rarity_weight (traits ! i) \<noteq> 0"
  proof
    assume "rarity_weight (traits ! i) = 0"
    then have "w = Finite 0" using i(2) by simp
    then have "fdiv (Finite 0) (np_sum (map snd wm)) = Finite p" using w(2) by simp
    then have "p = 0" by (rule fdiv_zero_finite)
    with p(2) show False by simp
  qed
  with i show ?thesis by simp
qed

lemma table_draws:
  assumes groups: "get_normalized_rarity_weight_groups argsort traits = Inr groups"
    and l: "list_all2 drawn_from picks groups"
  shows "\<forall>i \<in> set picks. i < length traits \<and> rarity_weight (traits ! i) \<noteq> 0"
proof
  fix i assume "i \<in> set picks"
  then obtain k where k: "k < length picks" "picks ! k = i" by (auto simp: in_set_conv_nth)
  from l k(1) have "drawn_from (picks ! k) (groups ! k)" "k < length groups"
    by (simp_all add: list_all2_conv_all_nth)
  with table_draw [OF groups, of "groups ! k" i] k(2)
  show "i < length traits \<and> rarity_weight (traits ! i) \<noteq> 0" by simp
qed

lemma get_random_traits_cases:
  "get_random_traits nx traits groups g =
     (if list_all valid_probabilities groups
      then (case choices nx groups g of
              Inl e \<Rightarrow> Inl e
            | Inr (picks, g') \<Rightarrow>
                if list_all (\<lambda>i. i < length traits) (sort picks)
                then Inr (map ((!) traits) (sort picks), g') else Inl IndexError)
      else Inl ValueError)"
proof (cases "list_all valid_probabilities groups")
  case True
  then show ?thesis by (simp add: get_random_traits_def Let_def split: sum.splits prod.splits)
next
  case False
  then show ?thesis using choices_invalid [of groups nx g] by (simp add: get_random_traits_def)
qed

lemma get_random_traits_rows:
  assumes groups: "get_normalized_rarity_weight_groups argsort traits = Inr groups"
    and r: "get_random_traits nx traits groups g = Inr (rows, g1)"
  shows "\<exists>picks. list_all2 drawn_from picks groups \<and> rows = map ((!) traits) (sort picks) \<and>
           (\<forall>i \<in> set picks. i < length traits \<and> rarity_weight (traits ! i) \<noteq> 0)"
proof -
  from r have v: "list_all valid_probabilities groups"
    by (simp add: get_random_traits_cases split: if_splits)
  from choices_valid [OF v, of nx g] obtain picks g' where
    c: "choices nx groups g = Inr (picks, g')" and l: "list_all2 drawn_from picks groups" by blast
  from r c have "rows = map ((!) traits) (sort picks)"
    by (simp add: get_random_traits_def Let_def split: if_splits)
  with l table_draws [OF groups l] show ?thesis by blast
qed

lemma get_random_traits_table_error:
  assumes groups: "get_normalized_rarity_weight_groups argsort traits = Inr groups"
    and r: "get_random_traits nx traits groups g = Inl e"
  shows "e = ValueError \<and> \<not> list_all valid_probabilities groups"
proof (cases "list_all valid_probabilities groups")
  case False
  with r show ?thesis by (simp add: get_random_traits_cases)
next
  case True
  from choices_valid [OF True, of nx g] obtain picks g' where
    c: "choices nx groups g = Inr (picks, g')" and l: "list_all2 drawn_from picks groups" by blast
  from table_draws [OF groups l] have "list_all (\<lambda>i. i < length traits) (sort picks)"
    by (simp add: list_all_iff)
  with c r show ?thesis by (simp add: get_random_traits_def Let_def)
qed

lemma finite_values_None: "p \<in> set ps \<Longrightarrow> p \<notin> range Finite \<Longrightarrow> finite_values ps = None"
proof (induction ps)
  case Nil
  then show ?case by simp
next
  case (Cons q ps)
  then show ?case by (cases q) auto
qed



section \<open>A loop that cannot end\<close>

lemma generate_loop_exhausted:
  assumes fin: "finite T" and card: "card T < amount"
    and draws: "\<And>g rows g1. get_random_traits nx traits groups g = Inr (rows, g1) \<Longrightarrow> map trait_name rows \<in> T"
  shows "generate_loop nx traits groups amount {} [] g \<noteq> Some (Inr r)"
proof
  assume run: "generate_loop nx traits groups amount {} [] g = Some (Inr r)"
  obtain td g' where r: "r = (td, g')" by (cases r)
  from generate_loop_result [OF run [unfolded r], of "\<lambda>rows. map trait_name rows \<in> T", OF draws]
  have q: "list_all (\<lambda>rows. map trait_name rows \<in> T) td" and d: "distinct (map (map trait_name) td)"
    and l: "length td = amount" by auto
  have "set (map (map trait_name) td) \<subseteq> T" using q by (auto simp: list_all_iff)
  then have "card (set (map (map trait_name) td)) \<le> card T" using fin by (rule card_mono [rotated])
  moreover have "card (set (map (map trait_name) td)) = amount"
    using distinct_card [OF d] l by (simp only: length_map)
  ultimately show False using card by simp
qed

lemma two_by_two_groups_eq:
  "get_normalized_rarity_weight_groups argsort two_by_two_traits = Inr two_by_two_groups"
  by (simp add: normalizer_eval two_by_two_traits_def two_by_two_groups_def upt_rec)

lemma two_by_two_valid: "list_all valid_probabilities two_by_two_groups"
  by (simp add: two_by_two_groups_def valid_probabilities_def atol_def)

lemma drawn_from_fst: "drawn_from i grp \<Longrightarrow> i \<in> fst ` set grp"
  using drawn_fromD by force

lemma two_by_two_names:
  assumes "get_random_traits nx two_by_two_traits two_by_two_groups g = Inr (rows, g1)"
  shows "map trait_name rows \<in> {[Some ''A'', Some ''X''], [Some ''A'', Some ''Y''],
                                   [Some ''B'', Some ''X''], [Some ''B'', Some ''Y'']}"
proof -
  from get_random_traits_rows [OF two_by_two_groups_eq assms] obtain picks where
    l: "list_all2 drawn_from picks two_by_two_groups"
    and rows: "rows = map ((!) two_by_two_traits) (sort picks)" by blast
  from l obtain i j where picks: "picks = [i, j]"
    and i: "drawn_from i [(0, Finite (1 / 2)), (1, Finite (1 / 2))]"
    and j: "drawn_from j [(2, Finite (1 / 2)), (3, Finite (1 / 2))]"
    by (auto simp: two_by_two_groups_def list_all2_Cons2)
  from drawn_from_fst [OF i] have i': "i = 0 \<or> i = 1" by auto
  from drawn_from_fst [OF j] have j': "j = 2 \<or> j = 3" by auto
  from i' j' show ?thesis unfolding rows picks by (auto simp: two_by_two_traits_def)
qed

section \<open>The statistics of an item with an absent slot\<close>

lemma absent_slot_groups_eq:
  "get_normalized_rarity_weight_groups argsort absent_slot_traits = Inr absent_slot_groups"
  by (simp add: normalizer_eval absent_slot_traits_def absent_slot_groups_def upt_rec)

lemma absent_slot_run:
  "generate_token_data interleaved_bits absent_slot_traits absent_slot_groups 1 0 = Some (Inr absent_slot_items)"
proof -
  have "get_random_traits interleaved_bits absent_slot_traits absent_slot_groups 0 =
        Inr ([absent_slot_traits ! 0, absent_slot_traits ! 1], 2)"
    by (simp add: get_random_traits_def absent_slot_groups_def choice_def interleaved_doubles cumsum_def
        searchsorted_right_def atol_def absent_slot_traits_def)
  then have "generate_loop interleaved_bits absent_slot_traits absent_slot_groups 1 {} [] 0 =
        Some (Inr ([[absent_slot_traits ! 0, absent_slot_traits ! 1]], 2))"
    apply (subst generate_loop.simps)
    apply simp
    apply (subst generate_loop.simps)
    apply simp
    done
  then show ?thesis
    by (simp add: generate_token_data_def absent_slot_items_def absent_slot_traits_def delete_rarity_weight_def)
qed

lemma absent_slot_pairs:
  "map (\<lambda>(ty, nm). (astype_U ty, astype_U nm)) (vstack_type_name absent_slot_items) =
     [(''Background'', ''Green''), (''Accessories'', ''None'')]"
  by (simp add: vstack_type_name_def absent_slot_items_def astype_U_def)

lemma absent_slot_unique:
  "sort (remdups [(''Background'', ''Green''), (''Accessories'', ''None'')]) =
     [(''Accessories'', ''None''), (''Background'', ''Green'')]"
  by code_simp

section \<open>Combining the layers of an item\<close>

lemma reduce_from_None:
  "list_all (\<lambda>y. y = None) xs \<Longrightarrow> reduce_from (combine_images ac) None xs = Inr None"
  by (induction xs) simp_all

lemma reduce_all_absent:
  assumes "item \<noteq> []" and "list_all (\<lambda>(ty, nm, im). im = None) item"
  shows "reduce (combine_images ac) (map (\<lambda>(ty, nm, im). im) item) = Inr None"
proof -
  from assms(1) obtain s rest where item: "item = s # rest" by (cases item) auto
  from assms(2) have "list_all (\<lambda>y. y = None) (map (\<lambda>(ty, nm, im). im) item)"
    by (auto simp: list_all_iff)
  then have "(\<lambda>(ty, nm, im). im) s = None" "list_all (\<lambda>y. y = None) (map (\<lambda>(ty, nm, im). im) rest)"
    unfolding item by simp_all
  then show ?thesis unfolding item by (simp add: reduce_def reduce_from_None)
qed

lemma generate_images_append:
  "generate_images ac (xs @ ys) =
     (case generate_images ac xs of
        (saved, Some e) \<Rightarrow> (saved, Some e)
      | (saved, None) \<Rightarrow> (saved @ fst (generate_images ac ys), snd (generate_images ac ys)))"
proof (induction xs)
  case Nil
  then show ?case by simp
next
  case (Cons item xs)
  then show ?case by (simp split: sum.splits option.splits prod.splits)
qed

lemma generate_images_length:
  "generate_images ac xs = (saved, err) \<Longrightarrow>
   length saved \<le> length xs \<and> (err = None \<longrightarrow> length saved = length xs)"
proof (induction xs arbitrary: saved err)
  case Nil
  then show ?case by simp
next
  case (Cons item xs)
  then show ?case by (fastforce split: sum.splits option.splits prod.splits)
qed

section \<open>Sums of probabilities\<close>

lemma int_sum_list_nat:
  "\<forall>x \<in> set xs. 0 \<le> f x \<Longrightarrow> int (sum_list (map (\<lambda>x. nat (f x)) xs)) = sum_list (map f xs)"
  by (induction xs) simp_all



lemma exact_group:
  assumes nonneg: "\<forall>j \<in> set rows. 0 \<le> rarity_weight (traits ! j)"
    and total: "sum_list (map (\<lambda>j. rarity_weight (traits ! j)) rows) < 2 ^ 53"
  shows "(\<forall>j \<in> set rows. round64 (of_int (rarity_weight (traits ! j))) =
            Finite (of_nat (nat (rarity_weight (traits ! j))))) \<and>
         np_sum (map snd (map (weight_at traits) rows)) =
           Finite (of_nat (sum_list (map (\<lambda>j. nat (rarity_weight (traits ! j))) rows)))"
proof -
  let ?n = "\<lambda>j. nat (rarity_weight (traits ! j))"
  let ?N = "sum_list (map ?n rows)"
  have "int ?N = sum_list (map (\<lambda>j. rarity_weight (traits ! j)) rows)"
    using nonneg by (rule int_sum_list_nat)
  with total have "int ?N < 2 ^ 53" by simp
  then have N: "?N < 2 ^ 53" by simp
  have small: "?n j < 2 ^ 53" if "j \<in> set rows" for j
  proof -
    have "?n j \<in> set (map ?n rows)" using that by simp
    then have "?n j \<le> ?N" using member_le_sum_list [of "?n j" "map ?n rows"] by simp
    with N show ?thesis by simp
  qed
  have r: "round64 (of_int (rarity_weight (traits ! j))) = Finite (of_nat (?n j))" if "j \<in> set rows" for j
  proof -
    have "(of_nat (?n j) :: rat) = of_int (rarity_weight (traits ! j))"
      using nonneg that by simp
    moreover have "round64 (of_nat (?n j)) = Finite (of_nat (?n j))"
      using small [OF that] by (rule round64_of_nat)
    ultimately show ?thesis by (simp only:)
  qed
  then have e: "map snd (map (weight_at traits) rows) = map (\<lambda>n. Finite (of_nat n)) (map ?n rows)"
    by (simp add: comp_def)
  have "np_sum (map snd (map (weight_at traits) rows)) = Finite (of_nat ?N)"
    unfolding e using N by (rule np_sum_exact)
  with r show ?thesis by blast
qed

lemma normalize_exact_group:
  assumes nonneg: "\<forall>j \<in> set rows. 0 \<le> rarity_weight (traits ! j)"
    and total: "sum_list (map (\<lambda>j. rarity_weight (traits ! j)) rows) < 2 ^ 53"
  shows "normalize_indexed_rarity_weights (map (weight_at traits) rows) =
         map (\<lambda>j. (j, fdiv (Finite (of_nat (nat (rarity_weight (traits ! j)))))
                        (Finite (of_nat (sum_list (map (\<lambda>j. nat (rarity_weight (traits ! j))) rows))))))
           rows"
proof -
  from exact_group [OF assms] have
    w: "\<forall>j \<in> set rows. round64 (of_int (rarity_weight (traits ! j))) =
            Finite (of_nat (nat (rarity_weight (traits ! j))))"
    and s: "np_sum (map snd (map (weight_at traits) rows)) =
        Finite (of_nat (sum_list (map (\<lambda>j. nat (rarity_weight (traits ! j))) rows)))" by simp_all
  show ?thesis
    unfolding normalize_indexed_rarity_weights_def Let_def s
    using w by (simp add: comp_def)
qed


lemma zero_weight_groups_eq:
  "get_normalized_rarity_weight_groups argsort zero_weight_traits = Inr [[(0, NaN)]]"
  by (simp add: normalizer_eval zero_weight_traits_def)

section \<open>A table with a duplicate row\<close>



section \<open>The claims\<close>



text \<open>
  C2, at the specification's own example: two trait types with the names A, B and X, Y,
  and five items requested. Whatever the bit generator is and wherever it starts,
  \<open>__generate_token_data\<close> neither returns a set nor raises: the loop never ends.
\<close>

theorem two_by_two_five_never_returns:
  "generate_token_data nx two_by_two_traits two_by_two_groups 5 g = None"
proof -
  let ?T = "{[Some ''A'', Some ''X''], [Some ''A'', Some ''Y''],
             [Some ''B'', Some ''X''], [Some ''B'', Some ''Y'']} :: string option list set"
  have fin: "finite ?T" by simp
  have card: "card ?T < 5" by (simp add: card_insert_if)
  have noset: "generate_loop nx two_by_two_traits two_by_two_groups 5 {} [] g \<noteq> Some (Inr r)" for r
    using fin card two_by_two_names by (rule generate_loop_exhausted)
  have noerr: "generate_loop nx two_by_two_traits two_by_two_groups 5 {} [] g \<noteq> Some (Inl e)" for e
  proof
    assume "generate_loop nx two_by_two_traits two_by_two_groups 5 {} [] g = Some (Inl e)"
    from generate_loop_error [OF this] obtain g1 where
      "get_random_traits nx two_by_two_traits two_by_two_groups g1 = Inl e" by blast
    from get_random_traits_table_error [OF two_by_two_groups_eq this] two_by_two_valid
    show False by simp
  qed
  have "generate_loop nx two_by_two_traits two_by_two_groups 5 {} [] g = None"
  proof (cases "generate_loop nx two_by_two_traits two_by_two_groups 5 {} [] g")
    case None
    then show ?thesis .
  next
    case (Some y)
    with noset noerr show ?thesis by (cases y) auto
  qed
  then show ?thesis by (simp add: generate_token_data_def)
qed

text \<open>
  C4, at a table with an absent name (the \<open>Accessories,,4,\<close> row of the command's help
  text): the trait frequency table has a row for the absent slot, under the name
  \<open>'None'\<close>.
\<close>

theorem trait_frequencies_count_absent_slot:
  "generate_trait_frequencies absent_slot_items =
     Inr ([(''Accessories'', ''None'', 1), (''Background'', ''Green'', 1)], [[1, 1]])"
  by (simp add: generate_trait_frequencies_def absent_slot_pairs absent_slot_unique Let_def
      np_split_sections_def)
     (simp add: absent_slot_items_def)

text \<open>
  C7, at the same item: the absent slot contributes its own term \<open>1 / 1\<close>, so the score
  is 3, where the sum over the non-absent slots plus the trait count term is 2.
\<close>

theorem rarity_score_counts_absent_slot:
  "map_sum id rarity_scores_csv (generate_statistics ''T'' absent_slot_items) = Inr [(''T #1'', 3)] \<and>
   map (claimed_rarity_score absent_slot_items) absent_slot_items = [2]"
proof -
  have f: "generate_trait_frequencies absent_slot_items =
     Inr ([(''Accessories'', ''None'', 1), (''Background'', ''Green'', 1)], [[1, 1]])"
    by (simp add: generate_trait_frequencies_def absent_slot_pairs absent_slot_unique Let_def
      np_split_sections_def)
     (simp add: absent_slot_items_def)
  have c: "generate_trait_count_frequencies absent_slot_items = ([(1, 1)], [1])"
    by (simp add: generate_trait_count_frequencies_def absent_slot_items_def truthy_def)
  have r: "generate_rarities ''T'' [[Suc 0, Suc 0]] [Suc 0] = [(''T #1'', 3)]"
    by (simp add: generate_rarities_def token_label_def)
  have "generate_statistics ''T'' absent_slot_items =
        Inr \<lparr>trait_frequencies_csv = [(''Accessories'', ''None'', 1), (''Background'', ''Green'', 1)],
             trait_count_frequencies_csv = [(1, 1)], rarity_scores_csv = [(''T #1'', 3)]\<rparr>"
    by (simp add: generate_statistics_def f c r)
  moreover have "map (claimed_rarity_score absent_slot_items) absent_slot_items = [2]"
    by (simp add: claimed_rarity_score_def absent_slot_items_def pair_frequency_def trait_count_def
        vstack_type_name_def)
  ultimately show ?thesis by simp
qed

text \<open>
  C8. With a seed, the generated set does not depend on what changes from one run to the
  next, the entropy of the operating system and the clock: two runs on the same table,
  amount and seed give the same set (or both fail the same way, or both never end), and
  the same metadata, statistics and images.
\<close>

theorem fixed_seed_same_generated_set:
  "sample_token_data (env\<lparr>os_entropy := e1, clock := c1\<rparr>) rows amount (Some seed) =
   sample_token_data (env\<lparr>os_entropy := e2, clock := c2\<rparr>) rows amount (Some seed) \<and>
   map_option (map_sum id content_files)
     (generate_content (env\<lparr>os_entropy := e1, clock := c1\<rparr>) token_name rows out amount (Some seed)) =
   map_option (map_sum id content_files)
     (generate_content (env\<lparr>os_entropy := e2, clock := c2\<rparr>) token_name rows out amount (Some seed))"
proof
  show s: "sample_token_data (env\<lparr>os_entropy := e1, clock := c1\<rparr>) rows amount (Some seed) =
        sample_token_data (env\<lparr>os_entropy := e2, clock := c2\<rparr>) rows amount (Some seed)"
    by (simp add: sample_token_data_def default_rng_def cong: sum.case_cong)
  show "map_option (map_sum id content_files)
     (generate_content (env\<lparr>os_entropy := e1, clock := c1\<rparr>) token_name rows out amount (Some seed)) =
   map_option (map_sum id content_files)
     (generate_content (env\<lparr>os_entropy := e2, clock := c2\<rparr>) token_name rows out amount (Some seed))"
    unfolding generate_content_def s
    by (simp add: content_files_def split: option.splits sum.splits prod.splits)
qed





text \<open>
  C6, as the code has it. Take a table the normaliser can read: every row has a trait
  type (or there is a single row) and every weight fits \<open>float64\<close>. If the rows of one
  trait type have no negative weight and their total weight is zero, the normaliser
  raises nothing: it returns that type's group with NaN as the probability of every
  row. The failure comes from the first draw, which numpy rejects with a
  \<open>ValueError\<close>, so no item is generated.
\<close>

theorem zero_total_group_fails_at_first_draw:
  assumes i: "i < length traits"
    and types: "length traits = 1 \<or> (\<forall>t \<in> set traits. trait_type t \<noteq> None)"
    and range: "\<forall>t \<in> set traits. is_finite (round64 (of_int (rarity_weight t)))"
    and nonneg: "\<forall>t \<in> set traits. trait_type t = trait_type (traits ! i) \<longrightarrow> 0 \<le> rarity_weight t"
    and z: "category_total traits (trait_type (traits ! i)) = 0"
    and a: "0 < amount"
  shows "\<exists>groups. get_normalized_rarity_weight_groups argsort traits = Inr groups \<and>
           (\<exists>grp \<in> set groups. (i, NaN) \<in> set grp \<and> list_all (\<lambda>(j, p). p = NaN) grp) \<and>
           get_random_traits nx traits groups g = Inl ValueError \<and>
           generate_token_data nx traits groups amount g = Some (Inl ValueError)"
proof -
  let ?c = "trait_type (traits ! i)"
  let ?w = "\<lambda>j. rarity_weight (traits ! j)"
  from i have ne: "traits \<noteq> []" by auto
  from types have ty: "\<not> (2 \<le> length traits \<and> list_ex (\<lambda>t. trait_type t = None) traits)"
    by (auto simp: list_ex_iff)
  from range have "list_all (\<lambda>t. is_finite (round64 (of_int (rarity_weight t)))) traits"
    by (simp add: list_all_iff)
  then obtain wgs where wgs: "indexed_rarity_weight_groups argsort traits = Inr wgs"
    using indexed_groups_in_range by blast
  define groups where "groups = map normalize_indexed_rarity_weights wgs"
  have groups: "get_normalized_rarity_weight_groups argsort traits = Inr groups"
    using ne ty wgs by (simp add: get_normalized_rarity_weight_groups_def groups_def)
  from group_of_row [OF i wgs] obtain rows where wm: "map (weight_at traits) rows \<in> set wgs"
    and d: "distinct rows" and ir: "i \<in> set rows"
    and s: "set rows = {j. j < length traits \<and> trait_type (traits ! j) = ?c}" by blast
  have w0: "\<forall>j \<in> set rows. 0 \<le> ?w j" using s nonneg nth_mem by auto
  have "category_total traits ?c = sum_list (map ?w rows)"
    unfolding category_total_def using sum_over_type [OF d s, of rarity_weight] by simp
  with z have s0: "sum_list (map ?w rows) = 0" by simp
  have "\<forall>x \<in> set (map ?w rows). 0 \<le> x" using w0 by simp
  then have "\<forall>x \<in> set (map ?w rows). x = 0" using s0 by (simp only: sum_list_nonneg_eq_0_iff)
  then have all0: "\<forall>j \<in> set rows. ?w j = 0" by simp
  then have n0: "sum_list (map (\<lambda>j. nat (?w j)) rows) = 0" by simp
  have lt: "sum_list (map ?w rows) < 2 ^ 53" using s0 by simp
  let ?grp = "normalize_indexed_rarity_weights (map (weight_at traits) rows)"
  have "?grp = map (\<lambda>j. (j, fdiv (Finite (of_nat (nat (?w j))))
                          (Finite (of_nat (sum_list (map (\<lambda>j. nat (?w j)) rows)))))) rows"
    using w0 lt by (rule normalize_exact_group)
  also have "\<dots> = map (\<lambda>j. (j, NaN)) rows" unfolding n0 using all0 by simp
  finally have e: "?grp = map (\<lambda>j. (j, NaN)) rows" .
  have in_groups: "?grp \<in> set groups" unfolding groups_def using wm by simp
  have m: "(i, NaN) \<in> set ?grp" unfolding e using ir by simp
  have l: "list_all (\<lambda>(j, p). p = NaN) ?grp" unfolding e by (simp add: list_all_iff)
  have "NaN \<in> set (map snd ?grp)" using m by force
  moreover have "NaN \<notin> range Finite" by auto
  ultimately have "finite_values (map snd ?grp) = None" by (rule finite_values_None)
  then have "\<not> valid_probabilities ?grp" by (simp add: valid_probabilities_def)
  with in_groups have "\<not> list_all valid_probabilities groups" by (auto simp: list_all_iff)
  then have r: "get_random_traits nx traits groups g = Inl ValueError"
    by (simp add: get_random_traits_cases)
  have "generate_loop nx traits groups amount {} [] g = Some (Inl ValueError)"
    using a r by (subst generate_loop.simps) simp
  then have "generate_token_data nx traits groups amount g = Some (Inl ValueError)"
    by (simp add: generate_token_data_def)
  with groups in_groups m l r show ?thesis by blast
qed

theorem zero_total_group_fails_at_first_draw_witness:
  "(0 :: nat) < length zero_weight_traits \<and>
   length zero_weight_traits = 1 \<and>
   list_all (\<lambda>t. is_finite (round64 (of_int (rarity_weight t)))) zero_weight_traits \<and>
   list_all (\<lambda>t. 0 \<le> rarity_weight t) zero_weight_traits \<and>
   category_total zero_weight_traits (trait_type (zero_weight_traits ! 0)) = 0 \<and>
   (0 :: nat) < 1 \<and>
   get_normalized_rarity_weight_groups insertion_argsort zero_weight_traits = Inr [[(0, NaN)]] \<and>
   get_random_traits interleaved_bits zero_weight_traits [[(0, NaN)]] 0 = Inl ValueError \<and>
   generate_token_data interleaved_bits zero_weight_traits [[(0, NaN)]] 1 0 = Some (Inl ValueError)"
proof -
  have i: "(0 :: nat) < length zero_weight_traits" by (simp add: zero_weight_traits_def)
  have l: "length zero_weight_traits = 1" by (simp add: zero_weight_traits_def)
  then have t: "length zero_weight_traits = 1 \<or> (\<forall>t \<in> set zero_weight_traits. trait_type t \<noteq> None)" ..
  have r: "\<forall>t \<in> set zero_weight_traits. is_finite (round64 (of_int (rarity_weight t)))"
    by (simp add: zero_weight_traits_def is_finite_def)
  have n: "\<forall>t \<in> set zero_weight_traits. 0 \<le> rarity_weight t" by (simp add: zero_weight_traits_def)
  then have n': "\<forall>t \<in> set zero_weight_traits.
      trait_type t = trait_type (zero_weight_traits ! 0) \<longrightarrow> 0 \<le> rarity_weight t" by simp
  have z: "category_total zero_weight_traits (trait_type (zero_weight_traits ! 0)) = 0"
    by (simp add: zero_weight_traits_def category_total_def)
  have a: "(0 :: nat) < 1" by simp
  from zero_total_group_fails_at_first_draw [OF i t r n' z a, of insertion_argsort interleaved_bits 0]
    zero_weight_groups_eq [of insertion_argsort]
  have "get_random_traits interleaved_bits zero_weight_traits [[(0, NaN)]] 0 = Inl ValueError \<and>
        generate_token_data interleaved_bits zero_weight_traits [[(0, NaN)]] 1 0 = Some (Inl ValueError)"
    by auto
  with i l r n z a zero_weight_groups_eq [of insertion_argsort] show ?thesis
    by (simp add: list_all_iff)
qed

theorem zero_total_group_counterexample:
  "get_normalized_rarity_weight_groups insertion_argsort zero_weight_traits = Inr [[(0, NaN)]]"
  by (simp add: normalizer_eval zero_weight_traits_def)

text \<open>
  C5, as the code has it. An item whose slots all have an absent image gets no image, and
  \<open>__generate_images\<close> does not get past it. If the items before it were all saved,
  it stops the run with the \<open>AttributeError\<close> that \<open>save\<close> on \<open>None\<close> raises,
  after exactly their images; otherwise the run has stopped already, at the first item
  before it that raised (an item without image as well, or layers that
  \<open>Image.alpha_composite\<close> refuses).
\<close>

theorem all_absent_item_gets_no_image:
  assumes "item \<noteq> []" and "list_all (\<lambda>(ty, nm, im). im = None) item"
  shows "\<exists>saved e. generate_images ac (before @ item # rest) = (saved, Some e) \<and>
           length saved \<le> length before \<and>
           (generate_images ac before = (saved, None) \<and> e = AttributeError \<and>
              length saved = length before \<or>
            generate_images ac before = (saved, Some e))"
proof -
  have stop: "generate_images ac (item # rest) = ([], Some AttributeError)"
    using reduce_all_absent [OF assms, of ac] by simp
  obtain saved err where b: "generate_images ac before = (saved, err)"
    by (cases "generate_images ac before")
  from generate_images_length [OF b] have l: "length saved \<le> length before"
    and l': "err = None \<longrightarrow> length saved = length before" by simp_all
  show ?thesis
  proof (cases err)
    case None
    then have "generate_images ac (before @ item # rest) = (saved, Some AttributeError)"
      using b stop by (simp add: generate_images_append)
    with None b l l' show ?thesis by blast
  next
    case (Some e)
    then have "generate_images ac (before @ item # rest) = (saved, Some e)"
      using b by (simp add: generate_images_append)
    with Some b l show ?thesis by blast
  qed
qed

theorem all_absent_item_gets_no_image_witness:
  "all_absent_item \<noteq> [] \<and>
   list_all (\<lambda>(ty, nm, im). im = None) all_absent_item \<and>
   generate_images layer_composite [visible_item] = ([''Green.png''], None) \<and>
   generate_images layer_composite ([visible_item] @ all_absent_item # [visible_item]) =
     ([''Green.png''], Some AttributeError)"
proof -
  have n: "all_absent_item \<noteq> []" by (simp add: all_absent_item_def)
  have a: "list_all (\<lambda>(ty, nm, im). im = None) all_absent_item" by (simp add: all_absent_item_def)
  have b: "generate_images layer_composite [visible_item] = ([''Green.png''], None)"
    by (simp add: visible_item_def reduce_def)
  from all_absent_item_gets_no_image [OF n a, of layer_composite "[visible_item]" "[visible_item]"]
  obtain saved e where
    r: "generate_images layer_composite ([visible_item] @ all_absent_item # [visible_item]) = (saved, Some e)"
    and c: "generate_images layer_composite [visible_item] = (saved, None) \<and> e = AttributeError \<and>
              length saved = length [visible_item] \<or>
            generate_images layer_composite [visible_item] = (saved, Some e)" by blast
  from c b have "saved = [''Green.png'']" "e = AttributeError" by auto
  with r n a b show ?thesis by simp
qed

theorem all_absent_item_counterexample:
  "generate_images layer_composite [all_absent_item] = ([], Some AttributeError)"
  by (simp add: all_absent_item_def reduce_def)




end
